theory Spec2Isabelle
  imports Complex_Main "HOL-Library.Word"
begin

text \<open>
  A model of \<open>MovieStreamingService\<close> (frontend/src/components/moviestreaming.ts): the
  chunked transfer of a media file over a data channel, its reassembly and feeding to the
  decode sink, the readiness rule and the reconciliation of the follower's playback clock.

  Conventions. The fields of the class are the fields of the record \<open>service\<close>. A method
  takes the service and returns the service after the call together with the list of its
  effects on the outside world, in order: calls of the four callbacks, envelopes handed to
  the channel, blocks handed to the sink, timers set, commands to the video element, and
  console warnings and errors (\<open>console.log\<close> is not modelled). An exception that the
  source catches is a branch of the model that produces what the \<open>catch\<close> block produces.
  What the browser decides (whether the channel is open, whether a send or an append
  throws, the wall clock) is data of the model: fields of the channel and of the sink, and
  arguments of the handlers. Chunk indices and counts are natural numbers, as the sender
  produces them, and the buffered share is their exact quotient, compared with 1/10.
  Playback times and time stamps are doubles, and the arithmetic on them rounds as
  JavaScript's does.
\<close>

section \<open>Bytes and the base64 wire form\<close>

type_synonym byte = "8 word"
type_synonym array_buffer = "byte list"

definition CHUNK_SIZE :: nat where
  "CHUNK_SIZE = 16 * 1024"

datatype js_error = InvalidCharacterError | DataChannelNotReady | SendFailed | TypeError

text \<open>
  \<open>btoa\<close> and \<open>atob\<close> are functions of the browser. \<open>btoa\<close> is base64 with padding over the
  code points of a binary string; \<open>atob\<close> is the forgiving decoder: it drops ASCII
  whitespace, removes one or two trailing \<open>=\<close> when the length is a multiple of 4, fails
  on a length of 1 modulo 4 and on any character outside the alphabet, and discards the
  bits left over after the last whole byte. A binary string is a \<open>string\<close>: its characters
  are the code points 0 to 255, which is all that \<open>String.fromCharCode\<close> of a byte
  produces and all that \<open>atob\<close> returns; the text of a received envelope is a \<open>string\<close> as
  well (code points above 255 make \<open>atob\<close> fail like any other character outside the
  alphabet).
\<close>

definition b64_alphabet :: string where
  "b64_alphabet = ''ABCDEFGHIJKLMNOPQRSTUVWXYZabcdefghijklmnopqrstuvwxyz0123456789+/''"

definition b64_char :: "nat \<Rightarrow> char" where
  "b64_char n = b64_alphabet ! n"

fun index_of :: "char \<Rightarrow> string \<Rightarrow> nat option" where
  "index_of c [] = None"
| "index_of c (x # xs) = (if c = x then Some 0 else map_option Suc (index_of c xs))"

definition b64_index :: "char \<Rightarrow> nat option" where
  "b64_index c = index_of c b64_alphabet"

fun to_sextets :: "nat list \<Rightarrow> nat list" where
  "to_sextets (a # b # c # rest) =
     [a div 4, (a mod 4) * 16 + b div 16, (b mod 16) * 4 + c div 64, c mod 64] @ to_sextets rest"
| "to_sextets [a, b] = [a div 4, (a mod 4) * 16 + b div 16, (b mod 16) * 4]"
| "to_sextets [a] = [a div 4, (a mod 4) * 16]"
| "to_sextets [] = []"

definition btoa :: "string \<Rightarrow> string" where
  "btoa s = map b64_char (to_sextets (map of_char s))
            @ replicate ((3 - length s mod 3) mod 3) (CHR ''='')"

fun from_sextets :: "nat list \<Rightarrow> nat list" where
  "from_sextets (p # q # r # s # rest) =
     [p * 4 + q div 16, (q mod 16) * 16 + r div 4, (r mod 4) * 64 + s] @ from_sextets rest"
| "from_sextets [p, q, r] = [p * 4 + q div 16, (q mod 16) * 16 + r div 4]"
| "from_sextets [p, q] = [p * 4 + q div 16]"
| "from_sextets [p] = []"
| "from_sextets [] = []"

definition ascii_whitespace :: "char \<Rightarrow> bool" where
  "ascii_whitespace c = (c \<in> set [CHR 0x09, CHR 0x0A, CHR 0x0C, CHR 0x0D, CHR 0x20])"

definition strip_padding :: "string \<Rightarrow> string" where
  "strip_padding d =
     (if length d mod 4 = 0 then
        (if 2 \<le> length d \<and> drop (length d - 2) d = ''=='' then take (length d - 2) d
         else if 1 \<le> length d \<and> drop (length d - 1) d = ''='' then take (length d - 1) d
         else d)
      else d)"

definition atob :: "string \<Rightarrow> js_error + string" where
  "atob s =
     (let d = strip_padding (filter (\<lambda>c. \<not> ascii_whitespace c) s) in
      if length d mod 4 = 1 then Inl InvalidCharacterError
      else case those (map b64_index d) of
             None \<Rightarrow> Inl InvalidCharacterError
           | Some vs \<Rightarrow> Inr (map char_of (from_sextets vs)))"

definition arrayBufferToBase64 :: "array_buffer \<Rightarrow> string" where
  "arrayBufferToBase64 buffer = btoa (map (\<lambda>b. char_of (unat b)) buffer)"

definition base64ToArrayBuffer :: "string \<Rightarrow> js_error + array_buffer" where
  "base64ToArrayBuffer base64 =
     (case atob base64 of
        Inl e \<Rightarrow> Inl e
      | Inr binary \<Rightarrow> Inr (map (\<lambda>c. word_of_nat (of_char c)) binary))"


section \<open>JavaScript numbers\<close>

text \<open>
  A JavaScript number is a double: a finite value, an infinity or \<open>NaN\<close>. Dividing by an
  expected total of 0 does not raise, it gives \<open>Infinity\<close> (or \<open>NaN\<close> for 0/0), and a
  comparison with \<open>NaN\<close> is false.
\<close>

datatype js_number = Fin real | PosInfinity | NegInfinity | NaN

definition js_div :: "nat \<Rightarrow> nat \<Rightarrow> js_number" where
  "js_div a b = (if b = 0 then (if a = 0 then NaN else PosInfinity) else Fin (real a / real b))"

fun js_percent :: "js_number \<Rightarrow> js_number" where
  "js_percent (Fin x) = Fin (x * 100)"
| "js_percent PosInfinity = PosInfinity"
| "js_percent NegInfinity = NegInfinity"
| "js_percent NaN = NaN"

fun js_ge :: "js_number \<Rightarrow> real \<Rightarrow> bool" where
  "js_ge (Fin x) t = (t \<le> x)"
| "js_ge PosInfinity t = True"
| "js_ge NegInfinity t = False"
| "js_ge NaN t = False"

subsection \<open>Rounding to a double\<close>

text \<open>
  The arithmetic of the playback clock (\<open>handleSync\<close>) is done in doubles, and its seek
  decision compares a rounded difference with 1.0, so the rounding is part of the model.
  \<open>round_double x\<close> is the double nearest to the real \<open>x\<close>, ties going to the even
  significand (IEEE 754 binary64, round to nearest even): \<open>binade\<close> finds the power of two
  \<open>p\<close> with \<open>p \<le> \<bar>x\<bar> < 2 * p\<close>, not going below the smallest normal binade \<open>2 ^ - 1022\<close>
  (the first argument bounds the search and is larger than the number of binades); the
  spacing of the doubles there is \<open>p / 2 ^ 52\<close>; a magnitude that rounds to \<open>2 ^ 1024\<close> or
  more overflows to an infinity. The sign of zero is not modelled (no operation of the
  service tells \<open>-0\<close> from \<open>0\<close>).
\<close>

fun binade :: "nat \<Rightarrow> real \<Rightarrow> real \<Rightarrow> real" where
  "binade 0 p x = p"
| "binade (Suc n) p x =
     (if 2 * p \<le> x then binade n (2 * p) x
      else if x < p \<and> 1 / 2 ^ 1022 < p then binade n (p / 2) x
      else p)"

definition round_half_even :: "real \<Rightarrow> int" where
  "round_half_even m =
     (if m - of_int \<lfloor>m\<rfloor> < 1 / 2 then \<lfloor>m\<rfloor>
      else if 1 / 2 < m - of_int \<lfloor>m\<rfloor> then \<lfloor>m\<rfloor> + 1
      else if even \<lfloor>m\<rfloor> then \<lfloor>m\<rfloor> else \<lfloor>m\<rfloor> + 1)"

definition round_double :: "real \<Rightarrow> js_number" where
  "round_double x =
     (if x = 0 then Fin 0
      else
        (let ulp = binade 2200 1 \<bar>x\<bar> / 2 ^ 52;
             r = of_int (round_half_even (\<bar>x\<bar> / ulp)) * ulp
         in if 2 ^ 1024 \<le> r then (if x < 0 then NegInfinity else PosInfinity)
            else Fin (if x < 0 then - r else r)))"

subsection \<open>The operations of the playback clock\<close>

text \<open>
  Subtraction, addition, division by a positive constant, absolute value and \<open>>\<close> on
  doubles: the exact result of two finite operands is rounded; infinities and \<open>NaN\<close>
  propagate as IEEE 754 has them.
\<close>

fun fl_neg :: "js_number \<Rightarrow> js_number" where
  "fl_neg (Fin a) = Fin (- a)"
| "fl_neg PosInfinity = NegInfinity"
| "fl_neg NegInfinity = PosInfinity"
| "fl_neg NaN = NaN"

fun fl_add :: "js_number \<Rightarrow> js_number \<Rightarrow> js_number" where
  "fl_add (Fin a) (Fin b) = round_double (a + b)"
| "fl_add NaN y = NaN"
| "fl_add x NaN = NaN"
| "fl_add PosInfinity NegInfinity = NaN"
| "fl_add NegInfinity PosInfinity = NaN"
| "fl_add PosInfinity y = PosInfinity"
| "fl_add NegInfinity y = NegInfinity"
| "fl_add x PosInfinity = PosInfinity"
| "fl_add x NegInfinity = NegInfinity"

definition fl_sub :: "js_number \<Rightarrow> js_number \<Rightarrow> js_number" where
  "fl_sub x y = fl_add x (fl_neg y)"

fun fl_div :: "js_number \<Rightarrow> real \<Rightarrow> js_number" where
  "fl_div (Fin a) d = round_double (a / d)"
| "fl_div PosInfinity d = PosInfinity"
| "fl_div NegInfinity d = NegInfinity"
| "fl_div NaN d = NaN"

fun fl_abs :: "js_number \<Rightarrow> js_number" where
  "fl_abs (Fin a) = Fin \<bar>a\<bar>"
| "fl_abs PosInfinity = PosInfinity"
| "fl_abs NegInfinity = PosInfinity"
| "fl_abs NaN = NaN"

fun fl_gt :: "js_number \<Rightarrow> real \<Rightarrow> bool" where
  "fl_gt (Fin a) t = (t < a)"
| "fl_gt PosInfinity t = True"
| "fl_gt NegInfinity t = False"
| "fl_gt NaN t = False"

section \<open>Protocol data\<close>

record movie_metadata =
  fileName :: string
  fileSize :: nat
  fileType :: string

record sync_data =
  currentTime :: js_number
  paused :: bool
  timestamp :: js_number

datatype message_type = Metadata | Chunk | Sync | Control | Unknown

record chunk_message =
  mtype :: message_type
  chunkIndex :: "nat option"
  msg_totalChunks :: "nat option"
  data :: "string option"
  metadata :: "movie_metadata option"
  syncData :: "sync_data option"
  control :: "string option"

record js_file =
  file_name :: string
  file_type :: string
  file_bytes :: "byte list"

definition file_size :: "js_file \<Rightarrow> nat" where
  "file_size f = length (file_bytes f)"

section \<open>External collaborators\<close>

text \<open>
  The data channel with its \<open>readyState\<close>; \<open>sendThrows\<close> says whether \<open>send\<close> on the open
  channel raises (a full buffer, a message that is too large). The video element with the
  two properties the service reads and writes: \<open>currentTime\<close>, a finite double, which takes
  the value assigned to it and refuses a value that is not finite with a \<open>TypeError\<close>, and
  \<open>paused\<close>, which \<open>pause()\<close> sets; \<open>play()\<close> clears it when the browser allows playback
  (\<open>video_playAllowed\<close>) and otherwise leaves it set and rejects its promise, which the
  service passes to \<open>console.error\<close>. The media source with its state, and the source
  buffer, of which \<open>appendThrows\<close> says whether \<open>appendBuffer\<close> raises.
\<close>

datatype ready_state = Connecting | Open | Closing | Closed

record data_channel =
  readyState :: ready_state
  sendThrows :: bool

record video_element =
  video_currentTime :: real
  video_paused :: bool
  video_playAllowed :: bool

datatype media_source_state = MsClosed | MsOpen | MsEnded

record source_buffer =
  appendThrows :: bool

section \<open>Observable effects\<close>

text \<open>
  The texts passed to \<open>onStatusUpdate\<close> and \<open>onError\<close> are constructors that keep the
  numbers the source formats into them.
\<close>

datatype direction = Sending | Receiving

datatype timer = SendNextChunkTimer | MasterPlayTimer

datatype status_text =
    ProcessingMovieFile
  | StartingFileTransfer
  | Uploading nat nat
  | TransferCompleted
  | ReceivingFile string nat
  | Downloading nat nat
  | PreparingPlayback

datatype error_text =
    ChannelNotInitialized
  | ChannelNotReady ready_state
  | FailedToProcessMovie
  | ConnectionLost
  | TransferFailedAt nat nat
  | FailedToProcessIncoming
  | FailedToProcessChunk nat
  | BufferingError
  | UnsupportedFormat string

datatype console_level = Warn | Err

datatype event =
    OnProgressUpdate js_number direction
  | OnStatusUpdate status_text
  | OnError error_text
  | OnPlaybackReady
  | ChannelSend chunk_message
  | AppendBuffer "byte list"
  | SetTimeout timer real
  | VideoSeek real
  | VideoPause
  | VideoPlay
  | Console console_level string

section \<open>The streaming service\<close>

definition BUFFER_THRESHOLD :: real where
  "BUFFER_THRESHOLD = 1 / 10"

definition SEEK_TOLERANCE :: real where
  "SEEK_TOLERANCE = 1"

record service =
  dataChannel :: "data_channel option"
  currentFile :: "js_file option"
  fileChunks :: "array_buffer list"
  sendingProgress :: nat
  totalChunks :: nat
  isSending :: bool
  receivedChunks :: "nat \<Rightarrow> array_buffer option"
  expectedTotalChunks :: nat
  receivingProgress :: nat
  movieMetadata :: "movie_metadata option"
  mediaSource :: "media_source_state option"
  sourceBuffer :: "source_buffer option"
  videoElement :: "video_element option"
  isBuffering :: bool
  playbackStarted :: bool
  bufferedChunkIndex :: nat
  isMaster :: bool
  syncInterval :: bool

definition new_service :: "video_element \<Rightarrow> service" where
  "new_service v =
     \<lparr>dataChannel = None, currentFile = None, fileChunks = [], sendingProgress = 0,
      totalChunks = 0, isSending = False, receivedChunks = Map.empty,
      expectedTotalChunks = 0, receivingProgress = 0, movieMetadata = None,
      mediaSource = None, sourceBuffer = None, videoElement = Some v,
      isBuffering = False, playbackStarted = False, bufferedChunkIndex = 0,
      isMaster = False, syncInterval = False\<rparr>"

subsection \<open>Sender\<close>

text \<open>
  \<open>splitFileIntoChunks\<close> slices the file at multiples of \<open>CHUNK_SIZE\<close>; the slices are read
  without failure. \<open>shareMovie\<close> is taken as one step (its guards and first writes run before
  the first \<open>await\<close>). \<open>sendNextChunk\<close> is one run of the pacing timer; the timer it sets
  is the effect \<open>SetTimeout SendNextChunkTimer\<close>, and \<open>sendLoop\<close> runs the timer again and
  again for as long as it is set, the list giving the \<open>readyState\<close> the channel has at each
  run.
\<close>

definition slice :: "byte list \<Rightarrow> nat \<Rightarrow> nat \<Rightarrow> byte list" where
  "slice bs start end' = take (end' - start) (drop start bs)"

function split_loop :: "byte list \<Rightarrow> nat \<Rightarrow> nat \<Rightarrow> array_buffer list \<Rightarrow> array_buffer list" where
  "split_loop bs total_chunks i chunks =
     (if i < total_chunks then
        (let start = i * CHUNK_SIZE;
             end' = min (start + CHUNK_SIZE) (length bs)
         in split_loop bs total_chunks (i + 1) (chunks @ [slice bs start end']))
      else chunks)"
  by pat_completeness auto
termination
  by (relation "measure (\<lambda>(bs, total_chunks, i, chunks). total_chunks - i)") auto

declare split_loop.simps [simp del]

definition splitFileIntoChunks :: "js_file \<Rightarrow> service \<Rightarrow> service" where
  "splitFileIntoChunks file s =
     (let total_chunks = nat \<lceil>real (file_size file) / real CHUNK_SIZE\<rceil>
      in s\<lparr>fileChunks := split_loop (file_bytes file) total_chunks 0 [],
           totalChunks := total_chunks,
           sendingProgress := 0\<rparr>)"

definition sendMessage :: "chunk_message \<Rightarrow> service \<Rightarrow> event list \<times> js_error option" where
  "sendMessage message s =
     (case dataChannel s of
        None \<Rightarrow> ([], Some DataChannelNotReady)
      | Some ch \<Rightarrow>
          if readyState ch \<noteq> Open then ([], Some DataChannelNotReady)
          else if sendThrows ch then ([Console Err ''Failed to send message''], Some SendFailed)
          else ([ChannelSend message], None))"

definition startSyncPlayback :: "service \<Rightarrow> service \<times> event list" where
  "startSyncPlayback s =
     (if videoElement s = None then (s, [Console Err ''No video element for playback''])
      else if isMaster s then (s, [SetTimeout MasterPlayTimer 1000])
      else (s, []))"

definition shareMovie :: "js_file \<Rightarrow> service \<Rightarrow> service \<times> event list" where
  "shareMovie file s =
     (case dataChannel s of
        None \<Rightarrow> (s, [Console Err ''Data channel not initialized'', OnError ChannelNotInitialized])
      | Some ch \<Rightarrow>
          if readyState ch \<noteq> Open then
            (s, [Console Err ''Data channel not ready'', OnError (ChannelNotReady (readyState ch))])
          else if isSending s then (s, [Console Warn ''Already sending a movie''])
          else
            (let s1 = s\<lparr>currentFile := Some file, isSending := True, sendingProgress := 0\<rparr>;
                 s2 = splitFileIntoChunks file s1;
                 metadataMessage =
                   \<lparr>mtype = Metadata, chunkIndex = None,
                    msg_totalChunks = Some (totalChunks s2), data = None,
                    metadata = Some \<lparr>fileName = file_name file, fileSize = file_size file,
                                     fileType = file_type file\<rparr>,
                    syncData = None, control = None\<rparr>
             in case sendMessage metadataMessage s2 of
                  (ev, Some e) \<Rightarrow>
                    (s2\<lparr>isSending := False, sendingProgress := 0\<rparr>,
                     [OnStatusUpdate ProcessingMovieFile] @ ev
                       @ [Console Err ''Failed to process movie'', OnError FailedToProcessMovie])
                | (ev, None) \<Rightarrow>
                    (s2, [OnStatusUpdate ProcessingMovieFile] @ ev
                       @ [OnStatusUpdate StartingFileTransfer, SetTimeout SendNextChunkTimer 500])))"

definition channel_open :: "service \<Rightarrow> bool" where
  "channel_open s = (case dataChannel s of None \<Rightarrow> False | Some ch \<Rightarrow> readyState ch = Open)"

definition sendNextChunk :: "service \<Rightarrow> service \<times> event list" where
  "sendNextChunk s =
     (if \<not> isSending s then (s, [])
      else if totalChunks s \<le> sendingProgress s then
        (let (s1, ev) = startSyncPlayback (s\<lparr>isSending := False\<rparr>)
         in (s1, [OnStatusUpdate TransferCompleted] @ ev))
      else if \<not> channel_open s then
        (s\<lparr>isSending := False\<rparr>,
         [Console Err ''Data channel not ready for sending chunk'', OnError ConnectionLost])
      else if length (fileChunks s) \<le> sendingProgress s then
        (s\<lparr>isSending := False\<rparr>,
         [Console Err ''Failed to send chunk'',
          OnError (TransferFailedAt (sendingProgress s) (totalChunks s))])
      else
        (let chunkData = fileChunks s ! sendingProgress s;
             base64Data = arrayBufferToBase64 chunkData;
             chunkMessage =
               \<lparr>mtype = Chunk, chunkIndex = Some (sendingProgress s),
                msg_totalChunks = Some (totalChunks s), data = Some base64Data,
                metadata = None, syncData = None, control = None\<rparr>
         in case sendMessage chunkMessage s of
              (ev, Some e) \<Rightarrow>
                (s\<lparr>isSending := False\<rparr>,
                 ev @ [Console Err ''Failed to send chunk'',
                       OnError (TransferFailedAt (sendingProgress s) (totalChunks s))])
            | (ev, None) \<Rightarrow>
                (let s1 = s\<lparr>sendingProgress := sendingProgress s + 1\<rparr>;
                     progress = js_percent (js_div (sendingProgress s1) (totalChunks s1));
                     delay = max 10 (min 50 (real (length chunkData) / 1024))
                 in (s1,
                     ev @ [OnProgressUpdate progress Sending]
                       @ (if sendingProgress s1 mod 10 = 0 \<or> sendingProgress s1 = totalChunks s1
                          then [OnStatusUpdate (Uploading (sendingProgress s1) (totalChunks s1))]
                          else [])
                       @ [SetTimeout SendNextChunkTimer delay]))))"

definition reschedules :: "event list \<Rightarrow> bool" where
  "reschedules ev = list_ex (\<lambda>e. case e of SetTimeout t d \<Rightarrow> t = SendNextChunkTimer | _ \<Rightarrow> False) ev"

definition set_readyState :: "ready_state \<Rightarrow> service \<Rightarrow> service" where
  "set_readyState r s = s\<lparr>dataChannel := map_option (\<lambda>ch. ch\<lparr>readyState := r\<rparr>) (dataChannel s)\<rparr>"

fun sendLoop :: "ready_state list \<Rightarrow> service \<Rightarrow> service \<times> event list" where
  "sendLoop [] s = (s, [])"
| "sendLoop (r # env) s =
     (let (s1, ev1) = sendNextChunk (set_readyState r s)
      in if reschedules ev1 then (let (s2, ev2) = sendLoop env s1 in (s2, ev1 @ ev2))
         else (s1, ev1))"

subsection \<open>Receiver\<close>

text \<open>
  A \<open>Map\<close> from chunk index to bytes is a partial function. The \<open>while\<close> loop of
  \<open>bufferChunks\<close> is \<open>collect\<close>, which stops at 5 chunks or at the first missing index.
\<close>

definition cleanupMediaSource :: "service \<Rightarrow> service" where
  "cleanupMediaSource s =
     s\<lparr>mediaSource := (if mediaSource s = Some MsOpen then Some MsEnded else mediaSource s),
       sourceBuffer := None\<rparr>"

definition setupMediaSource :: "service \<Rightarrow> service \<times> event list" where
  "setupMediaSource s =
     (if videoElement s = None \<or> movieMetadata s = None then
        (s, [Console Err ''Missing video element or metadata for MediaSource setup''])
      else
        (let s1 = (if mediaSource s \<noteq> None then cleanupMediaSource s else s)
         in (s1\<lparr>mediaSource := Some MsClosed\<rparr>, [])))"

definition onSourceOpen :: "bool \<Rightarrow> source_buffer \<Rightarrow> service \<Rightarrow> service \<times> event list" where
  "onSourceOpen supported sb s =
     (case mediaSource s of
        None \<Rightarrow> (s, [])
      | Some ms \<Rightarrow>
          (case movieMetadata s of
             None \<Rightarrow> (s\<lparr>mediaSource := Some MsOpen\<rparr>, [])
           | Some md \<Rightarrow>
               if supported then (s\<lparr>mediaSource := Some MsOpen, sourceBuffer := Some sb\<rparr>, [])
               else (s\<lparr>mediaSource := Some MsOpen\<rparr>,
                     [Console Err ''Failed to create SourceBuffer'',
                      OnError (UnsupportedFormat (fileType md))])))"

definition handleMetadata :: "chunk_message \<Rightarrow> service \<Rightarrow> service \<times> event list" where
  "handleMetadata message s =
     (case metadata message of
        None \<Rightarrow> (s, [Console Err ''Invalid metadata message''])
      | Some md \<Rightarrow>
          (case msg_totalChunks message of
             None \<Rightarrow> (s, [Console Err ''Invalid metadata message''])
           | Some n \<Rightarrow>
               if n = 0 then (s, [Console Err ''Invalid metadata message''])
               else
                 (let s1 = s\<lparr>movieMetadata := Some md,
                              expectedTotalChunks := n,
                              receivedChunks := Map.empty,
                              receivingProgress := 0,
                              playbackStarted := False,
                              bufferedChunkIndex := 0\<rparr>;
                      (s2, ev) = setupMediaSource s1
                  in (s2, [OnStatusUpdate (ReceivingFile (fileName md) (fileSize md))] @ ev))))"

definition checkPlaybackReadiness :: "service \<Rightarrow> service \<times> event list" where
  "checkPlaybackReadiness s =
     (if playbackStarted s \<or> expectedTotalChunks s = 0 then (s, [])
      else
        (let bufferRatio = js_div (receivingProgress s) (expectedTotalChunks s)
         in if js_ge bufferRatio BUFFER_THRESHOLD then
              (let s1 = s\<lparr>playbackStarted := True\<rparr>;
                   (s2, ev) = (if \<not> isMaster s1 then startSyncPlayback s1 else (s1, []))
               in (s2, [OnStatusUpdate PreparingPlayback, OnPlaybackReady] @ ev))
            else (s, [])))"

function collect :: "(nat \<Rightarrow> array_buffer option) \<Rightarrow> array_buffer list \<Rightarrow> nat
    \<Rightarrow> array_buffer list \<times> nat" where
  "collect m chunksToAppend currentIndex =
     (if length chunksToAppend < 5 then
        (case m currentIndex of
           Some chunk \<Rightarrow> collect m (chunksToAppend @ [chunk]) (currentIndex + 1)
         | None \<Rightarrow> (chunksToAppend, currentIndex))
      else (chunksToAppend, currentIndex))"
  by pat_completeness auto
termination
  by (relation "measure (\<lambda>(m, chunksToAppend, currentIndex). 5 - length chunksToAppend)") auto

declare collect.simps [simp del]

definition bufferChunks :: "service \<Rightarrow> service \<times> event list" where
  "bufferChunks s =
     (case sourceBuffer s of
        None \<Rightarrow> (s, [])
      | Some sb \<Rightarrow>
          if isBuffering s then (s, [])
          else
            (let (chunksToAppend, currentIndex) = collect (receivedChunks s) [] (bufferedChunkIndex s)
             in if chunksToAppend = [] then (s, [])
                else
                  (let combined = concat chunksToAppend
                   in if appendThrows sb then
                        (s\<lparr>isBuffering := False\<rparr>,
                         [Console Err ''Buffer append error'', OnError BufferingError])
                      else
                        (s\<lparr>isBuffering := True, bufferedChunkIndex := currentIndex\<rparr>,
                         [AppendBuffer combined]))))"

definition onUpdateEnd :: "service \<Rightarrow> service \<times> event list" where
  "onUpdateEnd s = bufferChunks (s\<lparr>isBuffering := False\<rparr>)"

definition handleChunk :: "chunk_message \<Rightarrow> service \<Rightarrow> service \<times> event list" where
  "handleChunk message s =
     (case chunkIndex message of
        None \<Rightarrow> (s, [Console Err ''Invalid chunk message - missing chunkIndex or data''])
      | Some idx \<Rightarrow>
          (case data message of
             None \<Rightarrow> (s, [Console Err ''Invalid chunk message - missing chunkIndex or data''])
           | Some d \<Rightarrow>
               if d = [] then (s, [Console Err ''Invalid chunk message - missing chunkIndex or data''])
               else
                 (case base64ToArrayBuffer d of
                    Inl e \<Rightarrow>
                      (s, [Console Err ''Error processing chunk'', OnError (FailedToProcessChunk idx)])
                  | Inr chunkData \<Rightarrow>
                      (let s1 = s\<lparr>receivedChunks := (receivedChunks s)(idx \<mapsto> chunkData),
                                   receivingProgress := receivingProgress s + 1\<rparr>;
                           progress = js_percent (js_div (receivingProgress s1) (expectedTotalChunks s1));
                           ev1 = [OnProgressUpdate progress Receiving]
                                 @ (if receivingProgress s1 mod 10 = 0
                                       \<or> receivingProgress s1 = expectedTotalChunks s1
                                    then [OnStatusUpdate (Downloading (receivingProgress s1)
                                                            (expectedTotalChunks s1))]
                                    else []);
                           (s2, ev2) = checkPlaybackReadiness s1;
                           (s3, ev3) = bufferChunks s2
                       in (s3, ev1 @ ev2 @ ev3)))))"

subsection \<open>Playback synchronisation\<close>

text \<open>
  \<open>handleSync\<close> has no \<open>try\<close> of its own: assigning a time that is not finite to the video
  element throws out of it, before the pause state is looked at, and the \<open>catch\<close> of
  \<open>handleIncomingMessage\<close> reports it.
\<close>

definition handleSync ::
    "real \<Rightarrow> chunk_message \<Rightarrow> service \<Rightarrow> js_error + service \<times> event list" where
  "handleSync now message s =
     (if isMaster s then Inr (s, [])
      else
        (case syncData message of
           None \<Rightarrow> Inr (s, [])
         | Some sd \<Rightarrow>
             (case videoElement s of
                None \<Rightarrow> Inr (s, [])
              | Some v \<Rightarrow>
                  (let networkDelay = fl_div (fl_sub (Fin now) (timestamp sd)) 1000;
                       adjustedTime = fl_add (currentTime sd) networkDelay;
                       timeDiff = fl_abs (fl_sub (Fin (video_currentTime v)) adjustedTime)
                   in case (if fl_gt timeDiff SEEK_TOLERANCE
                            then (case adjustedTime of
                                    Fin t \<Rightarrow> Inr (v\<lparr>video_currentTime := t\<rparr>, [VideoSeek t])
                                  | _ \<Rightarrow> Inl TypeError)
                            else Inr (v, [])) of
                        Inl e \<Rightarrow> Inl e
                      | Inr (v1, ev1) \<Rightarrow>
                          (let (v2, ev2) =
                                 (if paused sd \<and> \<not> video_paused v1
                                  then (v1\<lparr>video_paused := True\<rparr>, [VideoPause])
                                  else if \<not> paused sd \<and> video_paused v1
                                  then (if video_playAllowed v1
                                        then (v1\<lparr>video_paused := False\<rparr>, [VideoPlay])
                                        else (v1, [VideoPlay, Console Err ''play rejected'']))
                                  else (v1, []))
                           in Inr (s\<lparr>videoElement := Some v2\<rparr>, ev1 @ ev2))))))"

definition handleControl :: "chunk_message \<Rightarrow> service \<Rightarrow> service \<times> event list" where
  "handleControl message s = (s, [])"

definition handleIncomingMessage :: "real \<Rightarrow> chunk_message option \<Rightarrow> service \<Rightarrow> service \<times> event list" where
  "handleIncomingMessage now parsed s =
     (case parsed of
        None \<Rightarrow> (s, [Console Err ''Failed to parse/handle message'', OnError FailedToProcessIncoming])
      | Some message \<Rightarrow>
          (case mtype message of
             Metadata \<Rightarrow> handleMetadata message s
           | Chunk \<Rightarrow> handleChunk message s
           | Sync \<Rightarrow>
               (case handleSync now message s of
                  Inl e \<Rightarrow>
                    (s, [Console Err ''Failed to parse/handle message'',
                         OnError FailedToProcessIncoming])
                | Inr r \<Rightarrow> r)
           | Control \<Rightarrow> handleControl message s
           | Unknown \<Rightarrow> (s, [Console Warn ''Unknown message type''])))"


subsection \<open>The receiver's event stream\<close>

text \<open>
  The channel delivers messages one at a time (\<open>channel.onmessage\<close>, with the wall clock
  \<open>Date.now()\<close> read by the handler), the media source opens (the \<open>sourceopen\<close>
  listener, which creates the source buffer when a MIME type is supported), and the decode
  sink reports the end of an append (the \<open>updateend\<close> listener, which clears
  \<open>isBuffering\<close> and calls \<open>bufferChunks\<close>). \<open>run\<close> feeds a sequence of such events to
  the service and collects the effects.
\<close>

datatype input = Message real "chunk_message option" | SourceOpen bool source_buffer | UpdateEnd

fun step :: "input \<Rightarrow> service \<Rightarrow> service \<times> event list" where
  "step (Message now parsed) s = handleIncomingMessage now parsed s"
| "step (SourceOpen supported sb) s = onSourceOpen supported sb s"
| "step UpdateEnd s = onUpdateEnd s"

fun run :: "input list \<Rightarrow> service \<Rightarrow> service \<times> event list" where
  "run [] s = (s, [])"
| "run (i # is) s =
     (let (s1, ev1) = step i s;
          (s2, ev2) = run is s1
      in (s2, ev1 @ ev2))"

fun is_metadata :: "input \<Rightarrow> bool" where
  "is_metadata (Message now (Some m)) = (mtype m = Metadata)"
| "is_metadata _ = False"

subsection \<open>Envelopes as the sender builds them\<close>

definition metadata_envelope :: "string \<Rightarrow> nat \<Rightarrow> string \<Rightarrow> nat \<Rightarrow> chunk_message" where
  "metadata_envelope name sz ftype n =
     \<lparr>mtype = Metadata, chunkIndex = None, msg_totalChunks = Some n, data = None,
      metadata = Some \<lparr>fileName = name, fileSize = sz, fileType = ftype\<rparr>,
      syncData = None, control = None\<rparr>"

definition chunk_envelope :: "nat \<Rightarrow> nat \<Rightarrow> string \<Rightarrow> chunk_message" where
  "chunk_envelope i n d =
     \<lparr>mtype = Chunk, chunkIndex = Some i, msg_totalChunks = Some n, data = Some d,
      metadata = None, syncData = None, control = None\<rparr>"

definition sync_envelope :: "real \<Rightarrow> bool \<Rightarrow> real \<Rightarrow> chunk_message" where
  "sync_envelope t p ts =
     \<lparr>mtype = Sync, chunkIndex = None, msg_totalChunks = None, data = None,
      metadata = None,
      syncData = Some \<lparr>currentTime = Fin t, paused = p, timestamp = Fin ts\<rparr>, control = None\<rparr>"

definition idle_video :: video_element where
  "idle_video = \<lparr>video_currentTime = 0, video_paused = True, video_playAllowed = True\<rparr>"

subsection \<open>Reading the effects\<close>

text \<open>The envelopes handed to the channel, and the errors reported through \<open>onError\<close>.\<close>

definition sent :: "event list \<Rightarrow> chunk_message list" where
  "sent ev = concat (map (\<lambda>e. case e of ChannelSend m \<Rightarrow> [m] | _ \<Rightarrow> []) ev)"

definition errors :: "event list \<Rightarrow> error_text list" where
  "errors ev = concat (map (\<lambda>e. case e of OnError t \<Rightarrow> [t] | _ \<Rightarrow> []) ev)"

subsection \<open>Example states\<close>

text \<open>A master in the middle of sending a file of three one-byte chunks over an open channel.\<close>

definition sender_example :: service where
  "sender_example =
     (new_service idle_video)
       \<lparr>dataChannel := Some \<lparr>readyState = Open, sendThrows = False\<rparr>,
        currentFile := Some \<lparr>file_name = ''m.mp4'', file_type = ''video/mp4'', file_bytes = [1, 2, 3]\<rparr>,
        fileChunks := [[1], [2], [3]],
        totalChunks := 3,
        isSending := True,
        isMaster := True\<rparr>"


text \<open>A receiver that holds the chunks 0, 1 and 3 of four, with a sink that accepts appends.\<close>

definition gap_example :: service where
  "gap_example =
     (new_service idle_video)
       \<lparr>receivedChunks := [0 \<mapsto> [1], 1 \<mapsto> [2], 3 \<mapsto> [4]],
        expectedTotalChunks := 4,
        receivingProgress := 3,
        sourceBuffer := Some \<lparr>appendThrows = False\<rparr>\<rparr>"

subsection \<open>What a chunk envelope contributes\<close>

text \<open>
  \<open>decoded m\<close> is the index and the bytes that \<open>handleChunk\<close> stores for the envelope
  \<open>m\<close>, and \<open>None\<close> when \<open>handleChunk\<close> leaves through one of its guards (no index, no
  or empty data) or through its \<open>catch\<close> (the data is not base64).
\<close>

definition decoded :: "chunk_message \<Rightarrow> (nat \<times> array_buffer) option" where
  "decoded m =
     (case chunkIndex m of
        None \<Rightarrow> None
      | Some i \<Rightarrow>
          (case data m of
             None \<Rightarrow> None
           | Some d \<Rightarrow>
               if d = [] then None
               else (case base64ToArrayBuffer d of Inl e \<Rightarrow> None | Inr b \<Rightarrow> Some (i, b))))"


section \<open>The base64 wire form is byte preserving\<close>

lemma b64_all: "list_all (\<lambda>n. b64_index (b64_char n) = Some n \<and> b64_char n \<noteq> CHR ''='' \<and> \<not> ascii_whitespace (b64_char n)) [0..<64]"
  by (simp add: upt_rec b64_index_def b64_char_def b64_alphabet_def ascii_whitespace_def)

lemma b64_char_props:
  assumes "n < 64"
  shows "b64_index (b64_char n) = Some n" "b64_char n \<noteq> CHR ''=''" "\<not> ascii_whitespace (b64_char n)"
  using b64_all assms by (auto simp: list_all_iff)

lemma to_sextets_bound: "list_all (\<lambda>v. v < 256) bs \<Longrightarrow> list_all (\<lambda>v. v < 64) (to_sextets bs)"
  by (induction bs rule: to_sextets.induct) auto

lemma from_to_sextets: "list_all (\<lambda>v. v < 256) bs \<Longrightarrow> from_sextets (to_sextets bs) = bs"
  by (induction bs rule: to_sextets.induct) auto

lemma length_to_sextets_pad: "(length (to_sextets bs) + (3 - length bs mod 3) mod 3) mod 4 = 0"
proof (induction bs rule: to_sextets.induct)
  case (1 a b c rest)
  have "(3 - length (a # b # c # rest) mod 3) mod 3 = (3 - length rest mod 3) mod 3"
    by (simp add: mod_Suc)
  with 1 show ?case by (simp add: mod_Suc)
qed simp_all

lemma length_to_sextets_mod: "length (to_sextets bs) mod 4 \<noteq> 1"
  by (induction bs rule: to_sextets.induct) auto

lemma pad_cases: "(3 - n mod 3) mod 3 = (0::nat) \<or> (3 - n mod 3) mod 3 = 1 \<or> (3 - n mod 3) mod 3 = 2"
  by arith

lemma strip_padding_encoded:
  assumes len: "(length xs + p) mod 4 = 0" and p: "p = 0 \<or> p = 1 \<or> p = 2"
    and ne: "list_all (\<lambda>c. c \<noteq> CHR ''='') xs"
  shows "strip_padding (xs @ replicate p (CHR ''='')) = xs"
proof -
  consider "p = 0" | "p = 1" | "p = 2" using p by blast
  then show ?thesis
  proof cases
    case 1
    show ?thesis
    proof (cases xs rule: rev_cases)
      case Nil
      with 1 show ?thesis by (simp add: strip_padding_def)
    next
      case (snoc ys y)
      then have y: "y \<noteq> CHR ''=''" using ne by simp
      with 1 snoc len show ?thesis by (simp add: strip_padding_def)
    qed
  next
    case 2
    show ?thesis
    proof (cases xs rule: rev_cases)
      case Nil
      with 2 len show ?thesis by simp
    next
      case (snoc ys y)
      then have y: "y \<noteq> CHR ''=''" using ne by simp
      with 2 snoc len show ?thesis by (simp add: strip_padding_def)
    qed
  next
    case 3
    then have r: "replicate p (CHR ''='') = ''==''" by (simp add: numeral_2_eq_2)
    from 3 len show ?thesis unfolding r by (simp add: strip_padding_def)
  qed
qed

lemma those_map_Some: "list_all (\<lambda>x. f x = Some (g x)) xs \<Longrightarrow> those (map f xs) = Some (map g xs)"
  by (induction xs) auto

lemma filter_id: "list_all P xs \<Longrightarrow> filter P xs = xs"
  by (induction xs) auto

lemma atob_btoa: "atob (btoa s) = Inr s"
proof -
  let ?vs = "to_sextets (map of_char s)"
  let ?xs = "map b64_char ?vs"
  let ?p = "(3 - length s mod 3) mod 3"
  have bytes: "list_all (\<lambda>v. v < 256) (map of_char s :: nat list)"
    by (simp add: list_all_iff)
  have vs: "list_all (\<lambda>v. v < 64) ?vs"
    using to_sextets_bound [OF bytes] .
  have ne: "list_all (\<lambda>c. c \<noteq> CHR ''='') ?xs"
    using vs by (auto simp: list_all_iff b64_char_props)
  have nws: "list_all (\<lambda>c. \<not> ascii_whitespace c) (btoa s)"
  proof -
    have "\<not> ascii_whitespace (CHR ''='')" by (simp add: ascii_whitespace_def)
    then show ?thesis
      using vs by (auto simp: btoa_def list_all_iff b64_char_props)
  qed
  have len: "(length ?xs + ?p) mod 4 = 0"
    using length_to_sextets_pad [of "map of_char s"] by simp
  have strip: "strip_padding (btoa s) = ?xs"
    unfolding btoa_def by (rule strip_padding_encoded [OF len pad_cases ne])
  have idx: "those (map b64_index ?xs) = Some ?vs"
    using vs those_map_Some [of "\<lambda>v. b64_index (b64_char v)" "\<lambda>v. v" ?vs]
    by (simp add: list_all_iff b64_char_props comp_def)
  have m1: "length ?xs mod 4 \<noteq> 1"
    using length_to_sextets_mod [of "map of_char s"] by simp
  have dec: "map char_of (from_sextets ?vs) = s"
    using from_to_sextets [OF bytes] by (simp add: comp_def)
  show ?thesis
    unfolding atob_def filter_id [OF nws] strip Let_def
    using m1 idx dec by simp
qed

lemma base64_roundtrip: "base64ToArrayBuffer (arrayBufferToBase64 buffer) = Inr buffer"
proof -
  have "map (\<lambda>c. word_of_nat (of_char c)) (map (\<lambda>b. char_of (unat b)) buffer) = buffer"
    (is "?l = _")
  proof -
    have "\<And>b::byte. (word_of_nat (of_char (char_of (unat b))) :: byte) = b"
    proof -
      fix b :: byte
      have "unat b < 256" using unsigned_less [of b] by simp
      then show "(word_of_nat (of_char (char_of (unat b))) :: byte) = b" by simp
    qed
    then show ?thesis by (simp add: comp_def)
  qed
  then show ?thesis
    by (simp add: base64ToArrayBuffer_def arrayBufferToBase64_def atob_btoa)
qed

section \<open>Chunking\<close>

lemma split_loop_eq:
  "split_loop bs n i acc =
     acc @ map (\<lambda>j. slice bs (j * CHUNK_SIZE) (min (j * CHUNK_SIZE + CHUNK_SIZE) (length bs))) [i..<n]"
proof (induction bs n i acc rule: split_loop.induct)
  case (1 bs n i acc)
  show ?case
  proof (cases "i < n")
    case True
    then have "[i..<n] = i # [i + 1..<n]" by (simp add: upt_conv_Cons)
    with True 1 show ?thesis by (subst split_loop.simps) (simp add: Let_def)
  next
    case False
    then show ?thesis by (subst split_loop.simps) simp
  qed
qed

lemma slice_chunk:
  "slice bs (j * c) (min (j * c + c) (length bs)) = take c (drop (j * c) bs)"
  by (auto simp: slice_def min_def)

lemma concat_slices:
  "concat (map (\<lambda>j. slice bs (j * c) (min (j * c + c) (length bs))) [0..<k]) = take (k * c) bs"
proof (induction k)
  case 0
  show ?case by simp
next
  case (Suc k)
  have "take (k * c) bs @ take c (drop (k * c) bs) = take (k * c + c) bs"
    by (simp add: take_add)
  moreover have "slice bs (k * c) (min (k * c + c) (length bs)) = take c (drop (k * c) bs)"
    by (rule slice_chunk)
  ultimately show ?case using Suc by (simp add: add.commute)
qed

lemma ceil_covers:
  assumes "0 < c"
  shows "n \<le> nat \<lceil>real n / real c\<rceil> * c"
proof -
  have "real n / real c \<le> real_of_int \<lceil>real n / real c\<rceil>" by (rule le_of_int_ceiling)
  moreover have "0 < real c" using assms by simp
  ultimately have "real n \<le> real_of_int \<lceil>real n / real c\<rceil> * real c"
    by (simp only: pos_divide_le_eq)
  moreover have "0 \<le> \<lceil>real n / real c\<rceil>"
  proof -
    have "0 \<le> real n / real c" by simp
    then show ?thesis by (simp only: ceiling_le_iff zero_le_ceiling)
  qed
  ultimately have "real n \<le> real (nat \<lceil>real n / real c\<rceil> * c)" by simp
  then show ?thesis by (simp only: of_nat_le_iff)
qed

lemma fileChunks_split:
  "fileChunks (splitFileIntoChunks file s) =
     map (\<lambda>j. slice (file_bytes file) (j * CHUNK_SIZE)
                 (min (j * CHUNK_SIZE + CHUNK_SIZE) (length (file_bytes file))))
       [0..<nat \<lceil>real (file_size file) / real CHUNK_SIZE\<rceil>]"
  by (simp add: splitFileIntoChunks_def Let_def split_loop_eq)

lemma totalChunks_split:
  "totalChunks (splitFileIntoChunks file s) = nat \<lceil>real (file_size file) / real CHUNK_SIZE\<rceil>"
  by (simp add: splitFileIntoChunks_def Let_def)

lemma concat_fileChunks_split:
  "concat (fileChunks (splitFileIntoChunks file s)) = file_bytes file"
proof -
  have "0 < CHUNK_SIZE" by (simp add: CHUNK_SIZE_def)
  then have "length (file_bytes file) \<le> nat \<lceil>real (file_size file) / real CHUNK_SIZE\<rceil> * CHUNK_SIZE"
    unfolding file_size_def by (rule ceil_covers)
  then show ?thesis
    by (simp add: fileChunks_split concat_slices)
qed

lemma ceil_tight:
  assumes "0 < c" and "0 < n"
  shows "(nat \<lceil>real n / real c\<rceil> - 1) * c < n"
proof -
  have pos: "0 < \<lceil>real n / real c\<rceil>" using assms by simp
  have "real_of_int \<lceil>real n / real c\<rceil> - 1 < real n / real c" by linarith
  moreover have "0 < real c" using assms(1) by simp
  ultimately have lt: "(real_of_int \<lceil>real n / real c\<rceil> - 1) * real c < real n"
    by (simp only: pos_less_divide_eq)
  have "1 \<le> nat \<lceil>real n / real c\<rceil>" using pos by linarith
  then have "real (nat \<lceil>real n / real c\<rceil> - 1) = real (nat \<lceil>real n / real c\<rceil>) - 1"
    by (simp add: of_nat_diff)
  moreover have "real (nat \<lceil>real n / real c\<rceil>) = real_of_int \<lceil>real n / real c\<rceil>"
    using pos by simp
  ultimately have eq: "real ((nat \<lceil>real n / real c\<rceil> - 1) * c)
      = (real_of_int \<lceil>real n / real c\<rceil> - 1) * real c"
    by (simp only: of_nat_mult)
  have "real ((nat \<lceil>real n / real c\<rceil> - 1) * c) < real n"
    unfolding eq by (rule lt)
  then show ?thesis by (simp only: of_nat_less_iff)
qed

lemma chunk_start_inside:
  assumes "0 < c" and "i < nat \<lceil>real n / real c\<rceil>"
  shows "i * c < n"
proof -
  have "0 < n" using assms(2) by (cases n) simp_all
  have "i \<le> nat \<lceil>real n / real c\<rceil> - 1" using assms(2) by simp
  then have "i * c \<le> (nat \<lceil>real n / real c\<rceil> - 1) * c" by (rule mult_le_mono1)
  also have "\<dots> < n" using assms(1) \<open>0 < n\<close> by (rule ceil_tight)
  finally show ?thesis .
qed

lemma chunk_full:
  assumes "0 < c" and "Suc i < nat \<lceil>real n / real c\<rceil>"
  shows "i * c + c < n"
  using chunk_start_inside [OF assms] by simp

lemma butlast_upt_0: "butlast [0..<t] = [0..<t - 1]"
  by (cases t) simp_all

lemma fileChunks_ranges:
  "fileChunks (splitFileIntoChunks file s) =
     map (\<lambda>i. take CHUNK_SIZE (drop (i * CHUNK_SIZE) (file_bytes file)))
       [0..<nat \<lceil>real (file_size file) / real CHUNK_SIZE\<rceil>]"
  by (simp add: fileChunks_split slice_chunk)

lemma fileChunks_sizes:
  "list_all (\<lambda>c. length c \<le> CHUNK_SIZE) (fileChunks (splitFileIntoChunks file s))"
  "list_all (\<lambda>c. c \<noteq> []) (fileChunks (splitFileIntoChunks file s))"
  "list_all (\<lambda>c. length c = CHUNK_SIZE) (butlast (fileChunks (splitFileIntoChunks file s)))"
proof -
  let ?n = "length (file_bytes file)"
  let ?t = "nat \<lceil>real (file_size file) / real CHUNK_SIZE\<rceil>"
  have c: "0 < CHUNK_SIZE" by (simp add: CHUNK_SIZE_def)
  show "list_all (\<lambda>c. length c \<le> CHUNK_SIZE) (fileChunks (splitFileIntoChunks file s))"
    by (simp add: fileChunks_ranges list_all_iff)
  show "list_all (\<lambda>c. c \<noteq> []) (fileChunks (splitFileIntoChunks file s))"
  proof -
    have "take CHUNK_SIZE (drop (i * CHUNK_SIZE) (file_bytes file)) \<noteq> []" if "i < ?t" for i
      using chunk_start_inside [OF c, of i ?n] that c by (simp add: file_size_def)
    then show ?thesis by (simp add: fileChunks_ranges list_all_iff)
  qed
  show "list_all (\<lambda>c. length c = CHUNK_SIZE) (butlast (fileChunks (splitFileIntoChunks file s)))"
  proof -
    have "length (take CHUNK_SIZE (drop (i * CHUNK_SIZE) (file_bytes file))) = CHUNK_SIZE"
      if "i < ?t - 1" for i
    proof -
      have "Suc i < ?t" using that by simp
      then have "i * CHUNK_SIZE + CHUNK_SIZE < ?n"
        using chunk_full [OF c, of i ?n] by (simp add: file_size_def)
      then show ?thesis by simp
    qed
    then show ?thesis
      by (simp add: fileChunks_ranges map_butlast [symmetric] butlast_upt_0 list_all_iff)
  qed
qed

text \<open>
  Claim C1. For a file of any size, \<open>splitFileIntoChunks\<close> sets \<open>totalChunks\<close> to the
  ceiling of size / 16384 and produces that many chunks. Chunk \<open>i\<close> is the bytes of the file
  from offset \<open>i * 16384\<close>, 16384 of them or as many as are left: no chunk is longer than
  16 KiB, none is empty, and every chunk but the last is exactly 16 KiB. The wire form of
  every chunk (\<open>arrayBufferToBase64\<close>) decodes (\<open>base64ToArrayBuffer\<close>) to the chunk itself,
  and the chunks concatenated in ascending index order are the bytes of the file.
\<close>

theorem C1_split_roundtrip:
  "totalChunks (splitFileIntoChunks file s) = nat \<lceil>real (file_size file) / real (16 * 1024 :: nat)\<rceil>
   \<and> length (fileChunks (splitFileIntoChunks file s)) = totalChunks (splitFileIntoChunks file s)
   \<and> fileChunks (splitFileIntoChunks file s) =
       map (\<lambda>i. take (16 * 1024) (drop (i * (16 * 1024)) (file_bytes file)))
         [0..<totalChunks (splitFileIntoChunks file s)]
   \<and> list_all (\<lambda>c. length c \<le> 16 * 1024) (fileChunks (splitFileIntoChunks file s))
   \<and> list_all (\<lambda>c. c \<noteq> []) (fileChunks (splitFileIntoChunks file s))
   \<and> list_all (\<lambda>c. length c = 16 * 1024) (butlast (fileChunks (splitFileIntoChunks file s)))
   \<and> map (\<lambda>i. base64ToArrayBuffer (arrayBufferToBase64 (fileChunks (splitFileIntoChunks file s) ! i)))
         [0..<totalChunks (splitFileIntoChunks file s)]
       = map (\<lambda>i. Inr (fileChunks (splitFileIntoChunks file s) ! i))
           [0..<totalChunks (splitFileIntoChunks file s)]
   \<and> concat (map (\<lambda>i. fileChunks (splitFileIntoChunks file s) ! i)
               [0..<totalChunks (splitFileIntoChunks file s)]) = file_bytes file
   \<and> concat (map (\<lambda>i. case base64ToArrayBuffer
                               (arrayBufferToBase64 (fileChunks (splitFileIntoChunks file s) ! i)) of
                          Inl e \<Rightarrow> [] | Inr chunkData \<Rightarrow> chunkData)
               [0..<totalChunks (splitFileIntoChunks file s)]) = file_bytes file"
proof -
  let ?s' = "splitFileIntoChunks file s"
  have t: "totalChunks ?s' = nat \<lceil>real (file_size file) / real (16 * 1024 :: nat)\<rceil>"
    using totalChunks_split by (simp add: CHUNK_SIZE_def)
  have l: "length (fileChunks ?s') = totalChunks ?s'"
    by (simp add: fileChunks_split totalChunks_split)
  have g: "fileChunks ?s' =
       map (\<lambda>i. take (16 * 1024) (drop (i * (16 * 1024)) (file_bytes file))) [0..<totalChunks ?s']"
    using fileChunks_ranges by (simp only: totalChunks_split CHUNK_SIZE_def)
  have z1: "list_all (\<lambda>c. length c \<le> 16 * 1024) (fileChunks ?s')"
    using fileChunks_sizes(1) by (simp only: CHUNK_SIZE_def)
  have z2: "list_all (\<lambda>c. c \<noteq> []) (fileChunks ?s')"
    by (rule fileChunks_sizes(2))
  have z3: "list_all (\<lambda>c. length c = 16 * 1024) (butlast (fileChunks ?s'))"
    using fileChunks_sizes(3) by (simp only: CHUNK_SIZE_def)
  have c: "concat (map (\<lambda>i. fileChunks ?s' ! i) [0..<totalChunks ?s']) = file_bytes file"
    using concat_fileChunks_split map_nth [of "fileChunks ?s'"] l by simp
  have r: "map (\<lambda>i. base64ToArrayBuffer (arrayBufferToBase64 (fileChunks ?s' ! i))) [0..<totalChunks ?s']
       = map (\<lambda>i. Inr (fileChunks ?s' ! i)) [0..<totalChunks ?s']"
    by (simp add: base64_roundtrip)
  have d: "concat (map (\<lambda>i. case base64ToArrayBuffer (arrayBufferToBase64 (fileChunks ?s' ! i)) of
                          Inl e \<Rightarrow> [] | Inr chunkData \<Rightarrow> chunkData)
               [0..<totalChunks ?s']) = file_bytes file"
    using c by (simp add: base64_roundtrip)
  show ?thesis
    by (rule conjI [OF t conjI [OF l conjI [OF g conjI [OF z1 conjI [OF z2 conjI [OF z3
          conjI [OF r conjI [OF c d]]]]]]]])
qed

section \<open>Receiver: what each handler touches\<close>

lemma dec_AAAA: "base64ToArrayBuffer ''AAAA'' = Inr [0, 0, 0]"
  by (simp add: base64ToArrayBuffer_def atob_def strip_padding_def ascii_whitespace_def
      b64_index_def b64_alphabet_def)

lemma startSyncPlayback_state: "fst (startSyncPlayback s) = s"
  by (simp add: startSyncPlayback_def)

lemma startSyncPlayback_events: "OnPlaybackReady \<notin> set (snd (startSyncPlayback s))"
  by (simp add: startSyncPlayback_def)

lemma checkPlaybackReadiness_state:
  "fst (checkPlaybackReadiness s) =
     s\<lparr>playbackStarted := playbackStarted (fst (checkPlaybackReadiness s))\<rparr>"
  by (simp add: checkPlaybackReadiness_def startSyncPlayback_def Let_def)

lemma bufferChunks_state:
  "fst (bufferChunks s) =
     s\<lparr>isBuffering := isBuffering (fst (bufferChunks s)),
       bufferedChunkIndex := bufferedChunkIndex (fst (bufferChunks s))\<rparr>"
  by (simp add: bufferChunks_def Let_def split: option.splits prod.splits)

lemma checkPlaybackReadiness_frame:
  "receivedChunks (fst (checkPlaybackReadiness s)) = receivedChunks s"
  "receivingProgress (fst (checkPlaybackReadiness s)) = receivingProgress s"
  "expectedTotalChunks (fst (checkPlaybackReadiness s)) = expectedTotalChunks s"
  "isMaster (fst (checkPlaybackReadiness s)) = isMaster s"
  "sourceBuffer (fst (checkPlaybackReadiness s)) = sourceBuffer s"
  "isBuffering (fst (checkPlaybackReadiness s)) = isBuffering s"
  "bufferedChunkIndex (fst (checkPlaybackReadiness s)) = bufferedChunkIndex s"
  "videoElement (fst (checkPlaybackReadiness s)) = videoElement s"
  by (subst checkPlaybackReadiness_state, simp)+

lemma bufferChunks_frame:
  "receivedChunks (fst (bufferChunks s)) = receivedChunks s"
  "receivingProgress (fst (bufferChunks s)) = receivingProgress s"
  "expectedTotalChunks (fst (bufferChunks s)) = expectedTotalChunks s"
  "playbackStarted (fst (bufferChunks s)) = playbackStarted s"
  "isMaster (fst (bufferChunks s)) = isMaster s"
  "videoElement (fst (bufferChunks s)) = videoElement s"
  by (subst bufferChunks_state, simp)+

lemma bufferChunks_events:
  "snd (bufferChunks s) = []
   \<or> snd (bufferChunks s) = [Console Err ''Buffer append error'', OnError BufferingError]
   \<or> (\<exists>c. snd (bufferChunks s) = [AppendBuffer c])"
  by (simp add: bufferChunks_def Let_def split: option.splits prod.splits)

lemma bufferChunks_quiet:
  "OnPlaybackReady \<notin> set (snd (bufferChunks s))" "Console Warn t \<notin> set (snd (bufferChunks s))"
  using bufferChunks_events [of s] by auto

lemma checkPlaybackReadiness_no_metadata:
  "expectedTotalChunks s = 0 \<Longrightarrow> checkPlaybackReadiness s = (s, [])"
  by (simp add: checkPlaybackReadiness_def)

lemma handleChunk_dropped:
  assumes "decoded m = None"
  shows "fst (handleChunk m s) = s" and "OnPlaybackReady \<notin> set (snd (handleChunk m s))"
  using assms
  by (auto simp: handleChunk_def decoded_def split: option.splits if_splits sum.splits)

lemma handleChunk_accepted:
  assumes "decoded m = Some (i, b)"
  shows "handleChunk m s =
    (let s1 = s\<lparr>receivedChunks := (receivedChunks s)(i \<mapsto> b),
                 receivingProgress := receivingProgress s + 1\<rparr>
     in (fst (bufferChunks (fst (checkPlaybackReadiness s1))),
         [OnProgressUpdate (js_percent (js_div (receivingProgress s1) (expectedTotalChunks s1))) Receiving]
         @ (if receivingProgress s1 mod 10 = 0 \<or> receivingProgress s1 = expectedTotalChunks s1
            then [OnStatusUpdate (Downloading (receivingProgress s1) (expectedTotalChunks s1))]
            else [])
         @ snd (checkPlaybackReadiness s1)
         @ snd (bufferChunks (fst (checkPlaybackReadiness s1)))))"
  using assms
  by (auto simp: handleChunk_def decoded_def Let_def case_prod_beta
      split: option.splits if_splits sum.splits)

lemma decoded_SomeI:
  "chunkIndex m = Some i \<Longrightarrow> data m = Some d \<Longrightarrow> d \<noteq> [] \<Longrightarrow> base64ToArrayBuffer d = Inr b
   \<Longrightarrow> decoded m = Some (i, b)"
  by (simp add: decoded_def)

lemma handleChunk_stored:
  assumes "decoded m = Some (i, b)"
  shows "receivedChunks (fst (handleChunk m s)) = (receivedChunks s)(i \<mapsto> b)"
    and "receivingProgress (fst (handleChunk m s)) = receivingProgress s + 1"
    and "expectedTotalChunks (fst (handleChunk m s)) = expectedTotalChunks s"
  by (simp_all add: handleChunk_accepted [OF assms] Let_def bufferChunks_frame
        checkPlaybackReadiness_frame)

lemma handleChunk_map_idem:
  "receivedChunks (fst (handleChunk m (fst (handleChunk m s)))) = receivedChunks (fst (handleChunk m s))"
proof (cases "decoded m")
  case None
  then show ?thesis by (simp add: handleChunk_dropped)
next
  case (Some p)
  then obtain i b where "decoded m = Some (i, b)" by (cases p) simp
  then show ?thesis by (simp add: handleChunk_stored)
qed

lemma handleChunk_receiving:
  "receivingProgress (fst (handleChunk m s)) =
     receivingProgress s + (if decoded m = None then 0 else 1)"
proof (cases "decoded m")
  case None
  then show ?thesis by (simp add: handleChunk_dropped)
next
  case (Some p)
  then obtain i b where v: "decoded m = Some (i, b)" by (cases p) simp
  show ?thesis by (simp add: handleChunk_stored [OF v] v)
qed

section \<open>Redelivery of a chunk\<close>

text \<open>
  Claim C2, as the code has it. Delivering the same chunk envelope a second time leaves the
  \<open>receivedChunks\<close> map as the first delivery left it (the entry is overwritten with the
  same bytes). The received count is not deduplicated: \<open>receivingProgress\<close> is incremented
  on every delivery that carries an index and a decodable, non-empty payload, so the second
  delivery of such an envelope raises it by one more. An envelope that \<open>handleChunk\<close>
  rejects changes neither the map nor the count, at the first delivery or at the second.
\<close>

theorem C2_redelivery:
  "receivedChunks (fst (handleChunk m (fst (handleChunk m s))))
     = receivedChunks (fst (handleChunk m s))
   \<and> receivingProgress (fst (handleChunk m (fst (handleChunk m s))))
       = receivingProgress (fst (handleChunk m s)) + (if decoded m = None then 0 else 1)
   \<and> (\<forall>i d b. chunkIndex m = Some i \<and> data m = Some d \<and> d \<noteq> []
          \<and> base64ToArrayBuffer d = Inr b \<longrightarrow>
          receivedChunks (fst (handleChunk m s)) = (receivedChunks s)(i \<mapsto> b)
          \<and> receivingProgress (fst (handleChunk m s)) = receivingProgress s + 1
          \<and> receivingProgress (fst (handleChunk m (fst (handleChunk m s))))
              = receivingProgress s + 2)"
proof -
  have "receivedChunks (fst (handleChunk m s)) = (receivedChunks s)(i \<mapsto> b)
      \<and> receivingProgress (fst (handleChunk m s)) = receivingProgress s + 1
      \<and> receivingProgress (fst (handleChunk m (fst (handleChunk m s)))) = receivingProgress s + 2"
    if "chunkIndex m = Some i \<and> data m = Some d \<and> d \<noteq> [] \<and> base64ToArrayBuffer d = Inr b"
    for i d b
  proof -
    have v: "decoded m = Some (i, b)" using that by (simp add: decoded_SomeI)
    show ?thesis by (simp add: handleChunk_stored [OF v])
  qed
  then show ?thesis
    using handleChunk_map_idem [of m s] handleChunk_receiving [of m "fst (handleChunk m s)"]
    by blast
qed

theorem C2_redelivery_witness:
  "chunkIndex (chunk_envelope 0 3 ''AAAA'') = Some 0
   \<and> data (chunk_envelope 0 3 ''AAAA'') = Some ''AAAA''
   \<and> base64ToArrayBuffer ''AAAA'' = Inr [0, 0, 0]
   \<and> receivedChunks (fst (handleChunk (chunk_envelope 0 3 ''AAAA'')
        (fst (handleChunk (chunk_envelope 0 3 ''AAAA'') (new_service idle_video))))) 0
       = Some [0, 0, 0]
   \<and> receivingProgress (fst (handleChunk (chunk_envelope 0 3 ''AAAA'')
        (fst (handleChunk (chunk_envelope 0 3 ''AAAA'') (new_service idle_video))))) = 2"
proof -
  let ?m = "chunk_envelope 0 3 ''AAAA''"
  let ?s = "new_service idle_video"
  have h: "chunkIndex ?m = Some 0 \<and> data ?m = Some ''AAAA'' \<and> ''AAAA'' \<noteq> []
      \<and> base64ToArrayBuffer ''AAAA'' = Inr [0, 0, 0]"
    by (simp add: chunk_envelope_def dec_AAAA)
  have r0: "receivingProgress ?s = 0" by (simp add: new_service_def)
  note c2 = C2_redelivery [of ?m ?s]
  from c2 have same: "receivedChunks (fst (handleChunk ?m (fst (handleChunk ?m ?s))))
      = receivedChunks (fst (handleChunk ?m ?s))"
    by (rule conjunct1)
  from c2 h have "receivedChunks (fst (handleChunk ?m ?s)) = (receivedChunks ?s)(0 \<mapsto> [0, 0, 0])
      \<and> receivingProgress (fst (handleChunk ?m ?s)) = receivingProgress ?s + 1
      \<and> receivingProgress (fst (handleChunk ?m (fst (handleChunk ?m ?s)))) = receivingProgress ?s + 2"
    by blast
  then show ?thesis using same h r0 by simp
qed

text \<open>
  The claim as stated fails: in a session expecting three chunks, the second delivery of
  chunk 0 moves the received count from 1 to 2.
\<close>

theorem C2_counterexample:
  "receivingProgress (fst (handleChunk (chunk_envelope 0 3 ''AAAA'')
      (fst (handleMetadata (metadata_envelope ''movie.mp4'' 49152 ''video/mp4'' 3)
             (new_service idle_video))))) = 1
   \<and> receivingProgress (fst (handleChunk (chunk_envelope 0 3 ''AAAA'')
      (fst (handleChunk (chunk_envelope 0 3 ''AAAA'')
        (fst (handleMetadata (metadata_envelope ''movie.mp4'' 49152 ''video/mp4'' 3)
               (new_service idle_video))))))) = 2"
proof -
  have v: "decoded (chunk_envelope 0 3 ''AAAA'') = Some (0, [0, 0, 0])"
    by (simp add: decoded_def chunk_envelope_def dec_AAAA)
  have "receivingProgress (fst (handleMetadata (metadata_envelope ''movie.mp4'' 49152 ''video/mp4'' 3)
             (new_service idle_video))) = 0"
    by (simp add: handleMetadata_def metadata_envelope_def new_service_def setupMediaSource_def
        Let_def)
  then show ?thesis by (simp add: handleChunk_stored [OF v])
qed

section \<open>Chunks that arrive before any metadata\<close>

lemma handleMetadata_valid:
  assumes "metadata mm = Some md" and "msg_totalChunks mm = Some n" and "n \<noteq> 0"
  shows "receivedChunks (fst (handleMetadata mm s)) = Map.empty"
    and "receivingProgress (fst (handleMetadata mm s)) = 0"
    and "expectedTotalChunks (fst (handleMetadata mm s)) = n"
    and "playbackStarted (fst (handleMetadata mm s)) = False"
    and "bufferedChunkIndex (fst (handleMetadata mm s)) = 0"
  using assms
  by (simp_all add: handleMetadata_def setupMediaSource_def cleanupMediaSource_def Let_def)

lemma handleChunk_no_metadata:
  assumes "expectedTotalChunks s = 0" and "decoded m = Some (i, b)"
  shows "playbackStarted (fst (handleChunk m s)) = playbackStarted s"
    and "OnPlaybackReady \<notin> set (snd (handleChunk m s))"
    and "Console Warn t \<notin> set (snd (handleChunk m s))"
  using assms(1)
  by (simp_all add: handleChunk_accepted [OF assms(2)] Let_def bufferChunks_frame
        bufferChunks_quiet checkPlaybackReadiness_no_metadata)

text \<open>
  Claim C9, as the code has it. \<open>handleChunk\<close> has no guard on metadata: a chunk envelope
  that arrives while \<open>expectedTotalChunks\<close> is 0 is neither dropped nor warned about. If it
  carries an index and a decodable, non-empty payload it is stored in \<open>receivedChunks\<close> and
  counted in \<open>receivingProgress\<close> like any other chunk; only the readiness check is skipped
  (\<open>playbackStarted\<close> keeps its value and no readiness notification is made). The session
  continues, and the next valid metadata envelope clears the map and resets the count.
\<close>

theorem C9_chunk_before_metadata:
  assumes "expectedTotalChunks s = 0"
    and "chunkIndex m = Some i" and "data m = Some d" and "d \<noteq> []"
    and "base64ToArrayBuffer d = Inr b"
  shows "receivedChunks (fst (handleChunk m s)) = (receivedChunks s)(i \<mapsto> b)
       \<and> receivingProgress (fst (handleChunk m s)) = receivingProgress s + 1
       \<and> expectedTotalChunks (fst (handleChunk m s)) = 0
       \<and> playbackStarted (fst (handleChunk m s)) = playbackStarted s
       \<and> OnPlaybackReady \<notin> set (snd (handleChunk m s))
       \<and> (\<forall>t. Console Warn t \<notin> set (snd (handleChunk m s)))
       \<and> (\<forall>mm md n. metadata mm = Some md \<and> msg_totalChunks mm = Some n \<and> n \<noteq> 0 \<longrightarrow>
            receivedChunks (fst (handleMetadata mm (fst (handleChunk m s)))) = Map.empty
            \<and> receivingProgress (fst (handleMetadata mm (fst (handleChunk m s)))) = 0)"
proof -
  have v: "decoded m = Some (i, b)" using assms(2-5) by (rule decoded_SomeI)
  show ?thesis
    using assms(1)
    by (simp add: handleChunk_stored [OF v] handleChunk_no_metadata [OF assms(1) v]
        handleMetadata_valid)
qed

theorem C9_chunk_before_metadata_witness:
  "expectedTotalChunks (new_service idle_video) = 0
   \<and> chunkIndex (chunk_envelope 0 3 ''AAAA'') = Some 0
   \<and> data (chunk_envelope 0 3 ''AAAA'') = Some ''AAAA''
   \<and> base64ToArrayBuffer ''AAAA'' = Inr [0, 0, 0]
   \<and> receivedChunks (fst (handleChunk (chunk_envelope 0 3 ''AAAA'') (new_service idle_video))) 0
       = Some [0, 0, 0]
   \<and> receivingProgress (fst (handleChunk (chunk_envelope 0 3 ''AAAA'') (new_service idle_video))) = 1
   \<and> receivedChunks (fst (handleMetadata (metadata_envelope ''movie.mp4'' 49152 ''video/mp4'' 3)
        (fst (handleChunk (chunk_envelope 0 3 ''AAAA'') (new_service idle_video))))) 0 = None"
proof -
  have e: "expectedTotalChunks (new_service idle_video) = 0"
    and r: "receivingProgress (new_service idle_video) = 0"
    by (simp_all add: new_service_def)
  have i: "chunkIndex (chunk_envelope 0 3 ''AAAA'') = Some 0"
    and d: "data (chunk_envelope 0 3 ''AAAA'') = Some ''AAAA''"
    by (simp_all add: chunk_envelope_def)
  have n: "''AAAA'' \<noteq> []" by simp
  have mm: "metadata (metadata_envelope ''movie.mp4'' 49152 ''video/mp4'' 3)
              = Some \<lparr>fileName = ''movie.mp4'', fileSize = 49152, fileType = ''video/mp4''\<rparr>
            \<and> msg_totalChunks (metadata_envelope ''movie.mp4'' 49152 ''video/mp4'' 3) = Some 3
            \<and> (3::nat) \<noteq> 0"
    by (simp add: metadata_envelope_def)
  note c9 = C9_chunk_before_metadata [OF e i d n dec_AAAA]
  from c9 have "receivedChunks (fst (handleMetadata (metadata_envelope ''movie.mp4'' 49152 ''video/mp4'' 3)
        (fst (handleChunk (chunk_envelope 0 3 ''AAAA'') (new_service idle_video))))) = Map.empty"
    using mm by blast
  then show ?thesis using c9 e i d dec_AAAA r by simp
qed

text \<open>
  The claim as stated fails: on a fresh service, before any metadata, chunk 0 is stored and
  counted.
\<close>

theorem C9_counterexample:
  "expectedTotalChunks (new_service idle_video) = 0
   \<and> movieMetadata (new_service idle_video) = None
   \<and> receivedChunks (new_service idle_video) 0 = None
   \<and> receivedChunks (fst (handleChunk (chunk_envelope 0 3 ''AAAA'') (new_service idle_video))) 0
       = Some [0, 0, 0]
   \<and> receivingProgress (fst (handleChunk (chunk_envelope 0 3 ''AAAA'') (new_service idle_video))) = 1
   \<and> fst (handleChunk (chunk_envelope 0 3 ''AAAA'') (new_service idle_video)) \<noteq> new_service idle_video"
proof -
  have v: "decoded (chunk_envelope 0 3 ''AAAA'') = Some (0, [0, 0, 0])"
    by (simp add: decoded_def chunk_envelope_def dec_AAAA)
  have r: "receivingProgress (new_service idle_video) = 0" by (simp add: new_service_def)
  have p: "receivingProgress (fst (handleChunk (chunk_envelope 0 3 ''AAAA'') (new_service idle_video))) = 1"
    using r by (simp add: handleChunk_stored [OF v])
  then have "fst (handleChunk (chunk_envelope 0 3 ''AAAA'') (new_service idle_video)) \<noteq> new_service idle_video"
    using r by auto  
  then show ?thesis using p by (simp add: handleChunk_stored [OF v]) (simp add: new_service_def)
qed

section \<open>Readiness\<close>

lemma handleSync_shape:
  "case handleSync now m s of
     Inl e \<Rightarrow> e = TypeError
   | Inr r \<Rightarrow> fst r = s\<lparr>videoElement := videoElement (fst r)\<rparr> \<and> OnPlaybackReady \<notin> set (snd r)"
  by (simp add: handleSync_def Let_def case_prod_beta
      split: option.splits js_number.splits sum.splits)

lemma handleSync_state:
  "fst (case handleSync now m s of Inl e \<Rightarrow> (s, ev) | Inr r \<Rightarrow> r) =
     s\<lparr>videoElement := videoElement (fst (case handleSync now m s of Inl e \<Rightarrow> (s, ev) | Inr r \<Rightarrow> r))\<rparr>"
  using handleSync_shape [where now = now and m = m and s = s] by (cases "handleSync now m s") simp_all

lemma handleSync_events:
  "OnPlaybackReady \<notin> set ev \<Longrightarrow>
   OnPlaybackReady \<notin> set (snd (case handleSync now m s of Inl e \<Rightarrow> (s, ev) | Inr r \<Rightarrow> r))"
  using handleSync_shape [where now = now and m = m and s = s] by (cases "handleSync now m s") simp_all

lemma handleSync_frame:
  "receivingProgress (fst (case handleSync now m s of Inl e \<Rightarrow> (s, ev) | Inr r \<Rightarrow> r))
     = receivingProgress s"
  "expectedTotalChunks (fst (case handleSync now m s of Inl e \<Rightarrow> (s, ev) | Inr r \<Rightarrow> r))
     = expectedTotalChunks s"
  "playbackStarted (fst (case handleSync now m s of Inl e \<Rightarrow> (s, ev) | Inr r \<Rightarrow> r))
     = playbackStarted s"
  by (subst handleSync_state, simp)+

lemma handleChunk_frame:
  "expectedTotalChunks (fst (handleChunk m s)) = expectedTotalChunks s"
proof (cases "decoded m")
  case None
  then show ?thesis by (simp add: handleChunk_dropped)
next
  case (Some p)
  then obtain i b where "decoded m = Some (i, b)" by (cases p) simp
  then show ?thesis by (simp add: handleChunk_stored)
qed

lemma onSourceOpen_frame:
  "receivingProgress (fst (onSourceOpen supported sb s)) = receivingProgress s"
  "expectedTotalChunks (fst (onSourceOpen supported sb s)) = expectedTotalChunks s"
  "playbackStarted (fst (onSourceOpen supported sb s)) = playbackStarted s"
  "receivedChunks (fst (onSourceOpen supported sb s)) = receivedChunks s"
  "OnPlaybackReady \<notin> set (snd (onSourceOpen supported sb s))"
  by (simp_all add: onSourceOpen_def split: option.splits)

lemma step_expected:
  "\<not> is_metadata inp \<Longrightarrow> expectedTotalChunks (fst (step inp s)) = expectedTotalChunks s"
proof (cases inp)
  case (Message now parsed)
  assume "\<not> is_metadata inp"
  with Message show ?thesis
    by (cases parsed)
       (auto simp: handleIncomingMessage_def handleControl_def handleSync_frame handleChunk_frame
          split: message_type.splits)
next
  case (SourceOpen supported sb)
  then show ?thesis by (simp add: onSourceOpen_frame)
next
  case UpdateEnd
  then show ?thesis
    using bufferChunks_frame(3) [of "s\<lparr>isBuffering := False\<rparr>"] by (simp add: onUpdateEnd_def)
qed

section \<open>Playback readiness over a session\<close>

lemma checkPlaybackReadiness_result:
  "checkPlaybackReadiness s =
     (if \<not> playbackStarted s \<and> expectedTotalChunks s \<noteq> 0
         \<and> BUFFER_THRESHOLD \<le> real (receivingProgress s) / real (expectedTotalChunks s)
      then (s\<lparr>playbackStarted := True\<rparr>,
            [OnStatusUpdate PreparingPlayback, OnPlaybackReady]
            @ (if \<not> isMaster s then snd (startSyncPlayback (s\<lparr>playbackStarted := True\<rparr>)) else []))
      else (s, []))"
  by (simp add: checkPlaybackReadiness_def js_div_def Let_def startSyncPlayback_def)

lemma count_ready_startSync: "count_list (snd (startSyncPlayback s)) OnPlaybackReady = 0"
  by (simp add: startSyncPlayback_def)

lemma count_ready_buffer: "count_list (snd (bufferChunks s)) OnPlaybackReady = 0"
  using bufferChunks_quiet(1) [of s] by (simp add: count_list_0_iff)

lemma count_ready_check:
  "count_list (snd (checkPlaybackReadiness s)) OnPlaybackReady =
     (if \<not> playbackStarted s \<and> playbackStarted (fst (checkPlaybackReadiness s)) then 1 else 0)"
  by (simp add: checkPlaybackReadiness_result count_ready_startSync)

lemma started_check:
  "playbackStarted (fst (checkPlaybackReadiness s)) =
     (playbackStarted s \<or> (expectedTotalChunks s \<noteq> 0
        \<and> BUFFER_THRESHOLD \<le> real (receivingProgress s) / real (expectedTotalChunks s)))"
  by (auto simp: checkPlaybackReadiness_result)

lemma handleChunk_started:
  assumes "decoded m = Some (i, b)"
  shows "playbackStarted (fst (handleChunk m s)) =
     (playbackStarted s \<or> (expectedTotalChunks s \<noteq> 0
        \<and> BUFFER_THRESHOLD \<le> real (receivingProgress s + 1) / real (expectedTotalChunks s)))"
  by (simp add: handleChunk_accepted [OF assms] Let_def bufferChunks_frame started_check)

lemma handleChunk_count:
  "count_list (snd (handleChunk m s)) OnPlaybackReady =
     (if \<not> playbackStarted s \<and> playbackStarted (fst (handleChunk m s)) then 1 else 0)"
proof (cases "decoded m")
  case None
  then show ?thesis
    using handleChunk_dropped [OF None, of s] by (simp add: count_list_0_iff)
next
  case (Some p)
  then obtain i b where v: "decoded m = Some (i, b)" by (cases p) simp
  show ?thesis
    by (simp add: handleChunk_accepted [OF v] Let_def bufferChunks_frame count_ready_buffer
        count_ready_check)
qed

text \<open>
  The invariant of a session: playback has started exactly when the received count has
  reached the threshold share of the expected total.
\<close>

lemma ratio_mono:
  assumes "(t::real) \<le> real a / real n" shows "t \<le> real (a + 1) / real n"
proof -
  have "real a / real n \<le> real (a + 1) / real n"
    by (rule divide_right_mono) simp_all
  with assms show ?thesis by linarith
qed

lemma handleChunk_inv:
  assumes "playbackStarted s = (expectedTotalChunks s \<noteq> 0
        \<and> BUFFER_THRESHOLD \<le> real (receivingProgress s) / real (expectedTotalChunks s))"
  shows "playbackStarted (fst (handleChunk m s)) = (expectedTotalChunks (fst (handleChunk m s)) \<noteq> 0
        \<and> BUFFER_THRESHOLD \<le> real (receivingProgress (fst (handleChunk m s)))
                                / real (expectedTotalChunks (fst (handleChunk m s))))"
proof (cases "decoded m")
  case None
  then show ?thesis using assms by (simp add: handleChunk_dropped)
next
  case (Some p)
  then obtain i b where v: "decoded m = Some (i, b)" by (cases p) simp
  show ?thesis
    using assms ratio_mono [of BUFFER_THRESHOLD "receivingProgress s" "expectedTotalChunks s"]
    by (auto simp: handleChunk_started [OF v] handleChunk_stored [OF v])
qed

lemma handleChunk_started_mono:
  "playbackStarted s \<Longrightarrow> playbackStarted (fst (handleChunk m s))"
proof (cases "decoded m")
  case None
  assume "playbackStarted s"
  with None show ?thesis by (simp add: handleChunk_dropped)
next
  case (Some p)
  assume s: "playbackStarted s"
  from Some obtain i b where v: "decoded m = Some (i, b)" by (cases p) simp
  show ?thesis using s by (simp add: handleChunk_started [OF v])
qed

lemma onUpdateEnd_frame:
  "receivingProgress (fst (onUpdateEnd s)) = receivingProgress s"
  "expectedTotalChunks (fst (onUpdateEnd s)) = expectedTotalChunks s"
  "playbackStarted (fst (onUpdateEnd s)) = playbackStarted s"
  "count_list (snd (onUpdateEnd s)) OnPlaybackReady = 0"
  by (simp_all add: onUpdateEnd_def bufferChunks_frame count_ready_buffer)

lemma step_other:
  assumes "\<not> is_metadata inp" and "\<forall>now m. inp = Message now (Some m) \<longrightarrow> mtype m \<noteq> Chunk"
  shows "receivingProgress (fst (step inp s)) = receivingProgress s"
    and "expectedTotalChunks (fst (step inp s)) = expectedTotalChunks s"
    and "playbackStarted (fst (step inp s)) = playbackStarted s"
    and "count_list (snd (step inp s)) OnPlaybackReady = 0"
proof -
  show "receivingProgress (fst (step inp s)) = receivingProgress s"
    using assms
    by (cases inp; cases "case inp of Message now p \<Rightarrow> p | _ \<Rightarrow> None")
       (auto simp: handleIncomingMessage_def handleControl_def handleSync_frame onUpdateEnd_frame
          onSourceOpen_frame split: message_type.splits)
  show "expectedTotalChunks (fst (step inp s)) = expectedTotalChunks s"
    using assms(1) by (rule step_expected)
  show "playbackStarted (fst (step inp s)) = playbackStarted s"
    using assms
    by (cases inp; cases "case inp of Message now p \<Rightarrow> p | _ \<Rightarrow> None")
       (auto simp: handleIncomingMessage_def handleControl_def handleSync_frame onUpdateEnd_frame
          onSourceOpen_frame split: message_type.splits)
  show "count_list (snd (step inp s)) OnPlaybackReady = 0"
    using assms
    by (cases inp; cases "case inp of Message now p \<Rightarrow> p | _ \<Rightarrow> None")
       (auto simp: handleIncomingMessage_def handleControl_def handleSync_events count_list_0_iff
          onUpdateEnd_frame onSourceOpen_frame split: message_type.splits)
qed

lemma step_chunk:
  "mtype m = Chunk \<Longrightarrow> step (Message now (Some m)) s = handleChunk m s"
  by (simp add: handleIncomingMessage_def)

lemma step_cases:
  obtains (chunk) now m where "inp = Message now (Some m)" "mtype m = Chunk"
  | (other) "\<forall>now m. inp = Message now (Some m) \<longrightarrow> mtype m \<noteq> Chunk"
  by blast

lemma step_count:
  assumes "\<not> is_metadata inp"
  shows "count_list (snd (step inp s)) OnPlaybackReady =
     (if \<not> playbackStarted s \<and> playbackStarted (fst (step inp s)) then 1 else 0)"
proof (cases inp rule: step_cases)
  case (chunk now m)
  then show ?thesis by (simp only: step_chunk handleChunk_count)
next
  case other
  show ?thesis by (simp add: step_other [OF assms other])
qed

lemma step_started_mono:
  assumes "\<not> is_metadata inp" and "playbackStarted s"
  shows "playbackStarted (fst (step inp s))"
proof (cases inp rule: step_cases)
  case (chunk now m)
  then show ?thesis using assms(2) by (simp only: step_chunk handleChunk_started_mono)
next
  case other
  show ?thesis using assms(2) by (simp add: step_other [OF assms(1) other])
qed

lemma step_inv:
  assumes "\<not> is_metadata inp"
    and "playbackStarted s = (expectedTotalChunks s \<noteq> 0
        \<and> BUFFER_THRESHOLD \<le> real (receivingProgress s) / real (expectedTotalChunks s))"
  shows "playbackStarted (fst (step inp s)) = (expectedTotalChunks (fst (step inp s)) \<noteq> 0
        \<and> BUFFER_THRESHOLD \<le> real (receivingProgress (fst (step inp s)))
                                / real (expectedTotalChunks (fst (step inp s))))"
proof (cases inp rule: step_cases)
  case (chunk now m)
  then show ?thesis using handleChunk_inv [OF assms(2)] by (simp only: step_chunk)
next
  case other
  show ?thesis using assms(2) by (simp add: step_other [OF assms(1) other])
qed

lemma run_Cons:
  "run (i # is) s = (fst (run is (fst (step i s))), snd (step i s) @ snd (run is (fst (step i s))))"
  by (simp add: case_prod_beta)

lemma run_expected:
  "list_all (\<lambda>i. \<not> is_metadata i) inputs \<Longrightarrow>
     expectedTotalChunks (fst (run inputs s)) = expectedTotalChunks s"
  by (induction inputs arbitrary: s) (simp_all add: case_prod_beta step_expected)

lemma run_started_mono:
  "list_all (\<lambda>i. \<not> is_metadata i) inputs \<Longrightarrow> playbackStarted s \<Longrightarrow>
     playbackStarted (fst (run inputs s))"
  by (induction inputs arbitrary: s) (simp_all add: case_prod_beta step_started_mono)

lemma run_inv:
  "list_all (\<lambda>i. \<not> is_metadata i) inputs \<Longrightarrow>
   playbackStarted s = (expectedTotalChunks s \<noteq> 0
        \<and> BUFFER_THRESHOLD \<le> real (receivingProgress s) / real (expectedTotalChunks s)) \<Longrightarrow>
   playbackStarted (fst (run inputs s)) = (expectedTotalChunks (fst (run inputs s)) \<noteq> 0
        \<and> BUFFER_THRESHOLD \<le> real (receivingProgress (fst (run inputs s)))
                                / real (expectedTotalChunks (fst (run inputs s))))"
proof (induction inputs arbitrary: s)
  case Nil
  then show ?case by simp
next
  case (Cons i "is")
  from Cons.prems have n: "\<not> is_metadata i" and r: "list_all (\<lambda>i. \<not> is_metadata i) is" by simp_all
  have "playbackStarted (fst (run is (fst (step i s)))) =
      (expectedTotalChunks (fst (run is (fst (step i s)))) \<noteq> 0
        \<and> BUFFER_THRESHOLD \<le> real (receivingProgress (fst (run is (fst (step i s)))))
                                / real (expectedTotalChunks (fst (run is (fst (step i s))))))"
    by (rule Cons.IH [OF r step_inv [OF n Cons.prems(2)]])
  then show ?case by (simp only: run_Cons fst_conv)
qed

lemma run_count:
  "list_all (\<lambda>i. \<not> is_metadata i) inputs \<Longrightarrow>
   count_list (snd (run inputs s)) OnPlaybackReady =
     (if \<not> playbackStarted s \<and> playbackStarted (fst (run inputs s)) then 1 else 0)"
proof (induction inputs arbitrary: s)
  case Nil
  then show ?case by simp
next
  case (Cons i "is")
  from Cons.prems have n: "\<not> is_metadata i" and r: "list_all (\<lambda>i. \<not> is_metadata i) is" by simp_all
  have c: "count_list (snd (run (i # is) s)) OnPlaybackReady =
      count_list (snd (step i s)) OnPlaybackReady
      + count_list (snd (run is (fst (step i s)))) OnPlaybackReady"
    by (simp only: run_Cons snd_conv count_list_append)
  show ?case
  proof (cases "playbackStarted (fst (step i s))")
    case True
    then have "playbackStarted (fst (run is (fst (step i s))))"
      by (rule run_started_mono [OF r])
    then show ?thesis
      using True c step_count [OF n, of s] Cons.IH [OF r, of "fst (step i s)"]
      by (simp add: run_Cons del: run.simps)
  next
    case False
    then have "\<not> playbackStarted s" using step_started_mono [OF n] by blast
    then show ?thesis
      using False c step_count [OF n, of s] Cons.IH [OF r, of "fst (step i s)"]
      by (simp add: run_Cons del: run.simps)
  qed
qed

text \<open>
  Claim C4. A session starts with a valid metadata envelope and goes on with any sequence
  of channel messages that are not metadata (chunks, valid or not, sync samples, control
  and unknown envelopes, unparseable text) and of \<open>updateend\<close> events of the sink. Over
  the whole session \<open>onPlaybackReady\<close> is called once if the final share
  \<open>receivingProgress / expectedTotalChunks\<close> is at least 0.10 and not at all otherwise,
  and \<open>playbackStarted\<close> holds exactly in the first case. Since this holds for every
  prefix of the session as well, the one call is made by the first delivery after which the
  share is at least 0.10: an event of the session makes the call if and only if the share
  is below 0.10 before it and at least 0.10 after it.
\<close>

theorem C4_readiness_once:
  assumes "metadata mm = Some md" and "msg_totalChunks mm = Some n" and "n \<noteq> 0"
    and "list_all (\<lambda>i. \<not> is_metadata i) inputs"
  shows "count_list (snd (run inputs (fst (handleMetadata mm s)))) OnPlaybackReady =
           (if 1 / 10 \<le> real (receivingProgress (fst (run inputs (fst (handleMetadata mm s))))) / real n
            then 1 else 0)
       \<and> playbackStarted (fst (run inputs (fst (handleMetadata mm s)))) =
           (1 / 10 \<le> real (receivingProgress (fst (run inputs (fst (handleMetadata mm s))))) / real n)
       \<and> expectedTotalChunks (fst (run inputs (fst (handleMetadata mm s)))) = n
       \<and> (\<forall>pre inp post. inputs = pre @ inp # post \<longrightarrow>
             (OnPlaybackReady \<in> set (snd (step inp (fst (run pre (fst (handleMetadata mm s))))))
              \<longleftrightarrow> \<not> 1 / 10 \<le> real (receivingProgress (fst (run pre (fst (handleMetadata mm s))))) / real n
                  \<and> 1 / 10 \<le> real (receivingProgress
                        (fst (step inp (fst (run pre (fst (handleMetadata mm s))))))) / real n))"
proof -
  let ?s0 = "fst (handleMetadata mm s)"
  note md = handleMetadata_valid [OF assms(1-3), of s]
  have inv0: "playbackStarted ?s0 = (expectedTotalChunks ?s0 \<noteq> 0
        \<and> BUFFER_THRESHOLD \<le> real (receivingProgress ?s0) / real (expectedTotalChunks ?s0))"
    using assms(3) by (simp add: md BUFFER_THRESHOLD_def)
  have ns: "\<not> playbackStarted ?s0" by (simp add: md)
  have e: "expectedTotalChunks (fst (run inputs ?s0)) = n"
    using run_expected [OF assms(4), of ?s0] by (simp add: md)
  have st: "playbackStarted (fst (run inputs ?s0)) =
      (1 / 10 \<le> real (receivingProgress (fst (run inputs ?s0))) / real n)"
    using run_inv [OF assms(4) inv0] e assms(3) by (simp add: BUFFER_THRESHOLD_def)
  have cnt: "count_list (snd (run inputs ?s0)) OnPlaybackReady =
      (if 1 / 10 \<le> real (receivingProgress (fst (run inputs ?s0))) / real n then 1 else 0)"
    using run_count [OF assms(4), of ?s0] ns st by simp
  have each: "OnPlaybackReady \<in> set (snd (step inp (fst (run pre ?s0))))
      \<longleftrightarrow> \<not> 1 / 10 \<le> real (receivingProgress (fst (run pre ?s0))) / real n
          \<and> 1 / 10 \<le> real (receivingProgress (fst (step inp (fst (run pre ?s0))))) / real n"
    if split: "inputs = pre @ inp # post" for pre inp post
  proof -
    let ?s1 = "fst (run pre ?s0)"
    from assms(4) split have p: "list_all (\<lambda>i. \<not> is_metadata i) pre" and i: "\<not> is_metadata inp"
      by simp_all
    have e1: "expectedTotalChunks ?s1 = n"
      using run_expected [OF p, of ?s0] by (simp add: md)
    have inv1: "playbackStarted ?s1 = (expectedTotalChunks ?s1 \<noteq> 0
        \<and> BUFFER_THRESHOLD \<le> real (receivingProgress ?s1) / real (expectedTotalChunks ?s1))"
      by (rule run_inv [OF p inv0])
    have e2: "expectedTotalChunks (fst (step inp ?s1)) = n"
      using step_expected [OF i, of ?s1] e1 by simp
    have b: "playbackStarted ?s1 = (1 / 10 \<le> real (receivingProgress ?s1) / real n)"
      using inv1 e1 assms(3) by (simp add: BUFFER_THRESHOLD_def)
    have a: "playbackStarted (fst (step inp ?s1)) =
        (1 / 10 \<le> real (receivingProgress (fst (step inp ?s1))) / real n)"
      using step_inv [OF i inv1] e2 assms(3) by (simp add: BUFFER_THRESHOLD_def)
    have "OnPlaybackReady \<in> set (snd (step inp ?s1))
        \<longleftrightarrow> count_list (snd (step inp ?s1)) OnPlaybackReady \<noteq> 0"
      by (simp add: count_list_0_iff)
    also have "\<dots> \<longleftrightarrow> \<not> playbackStarted ?s1 \<and> playbackStarted (fst (step inp ?s1))"
      by (simp add: step_count [OF i])
    finally show ?thesis using a b by simp
  qed
  from cnt st e each show ?thesis by blast
qed

lemma decoded_chunk_AAAA: "decoded (chunk_envelope i n ''AAAA'') = Some (i, [0, 0, 0])"
  by (simp add: decoded_def chunk_envelope_def dec_AAAA)

lemma step_chunk_AAAA:
  "receivingProgress (fst (step (Message now (Some (chunk_envelope i n ''AAAA''))) s))
     = receivingProgress s + 1"
  by (simp add: handleIncomingMessage_def chunk_envelope_def
      handleChunk_stored(2) [OF decoded_chunk_AAAA, unfolded chunk_envelope_def])

theorem C4_readiness_once_witness:
  "metadata (metadata_envelope ''movie.mp4'' 1048576 ''video/mp4'' 64)
     = Some \<lparr>fileName = ''movie.mp4'', fileSize = 1048576, fileType = ''video/mp4''\<rparr>
   \<and> msg_totalChunks (metadata_envelope ''movie.mp4'' 1048576 ''video/mp4'' 64) = Some 64
   \<and> list_all (\<lambda>i. \<not> is_metadata i)
        (map (\<lambda>i. Message 0 (Some (chunk_envelope i 64 ''AAAA''))) [0, 1, 2, 3, 4, 5, 6])
   \<and> count_list (snd (run (map (\<lambda>i. Message 0 (Some (chunk_envelope i 64 ''AAAA''))) [0, 1, 2, 3, 4, 5])
        (fst (handleMetadata (metadata_envelope ''movie.mp4'' 1048576 ''video/mp4'' 64)
               (new_service idle_video))))) OnPlaybackReady = 0
   \<and> count_list (snd (run (map (\<lambda>i. Message 0 (Some (chunk_envelope i 64 ''AAAA''))) [0, 1, 2, 3, 4, 5, 6])
        (fst (handleMetadata (metadata_envelope ''movie.mp4'' 1048576 ''video/mp4'' 64)
               (new_service idle_video))))) OnPlaybackReady = 1"
proof -
  let ?mm = "metadata_envelope ''movie.mp4'' 1048576 ''video/mp4'' 64"
  let ?f = "\<lambda>i. Message 0 (Some (chunk_envelope i 64 ''AAAA''))"
  let ?s0 = "fst (handleMetadata ?mm (new_service idle_video))"
  have m: "metadata ?mm = Some \<lparr>fileName = ''movie.mp4'', fileSize = 1048576, fileType = ''video/mp4''\<rparr>"
    and t: "msg_totalChunks ?mm = Some 64" and n: "(64::nat) \<noteq> 0"
    by (simp_all add: metadata_envelope_def)
  have l6: "list_all (\<lambda>i. \<not> is_metadata i) (map ?f [0, 1, 2, 3, 4, 5])"
    and l7: "list_all (\<lambda>i. \<not> is_metadata i) (map ?f [0, 1, 2, 3, 4, 5, 6])"
    by (simp_all add: chunk_envelope_def)
  have r0: "receivingProgress ?s0 = 0"
    by (rule handleMetadata_valid(2) [OF m t n])
  have r6: "receivingProgress (fst (run (map ?f [0, 1, 2, 3, 4, 5]) ?s0)) = 6"
    using r0 by (simp add: run_Cons step_chunk_AAAA del: run.simps(2) step.simps)
  have r7: "receivingProgress (fst (run (map ?f [0, 1, 2, 3, 4, 5, 6]) ?s0)) = 7"
    using r0 by (simp add: run_Cons step_chunk_AAAA del: run.simps(2) step.simps)
  show ?thesis
    using C4_readiness_once [OF m t n l6, of "new_service idle_video"]
      C4_readiness_once [OF m t n l7, of "new_service idle_video"] m t l7 r6 r7
    by simp
qed

text \<open>
  Claim C10. While no metadata has been processed (\<open>expectedTotalChunks\<close> is 0),
  \<open>checkPlaybackReadiness\<close> returns at its guard: it changes nothing and reports
  nothing, whatever the received count is, so the share \<open>receivingProgress /
  expectedTotalChunks\<close> (which is not a finite number there) plays no part in its result.
  This stays so however many chunk messages and other non-metadata events arrive: the
  expected total stays 0, \<open>playbackStarted\<close> keeps its value and \<open>onPlaybackReady\<close> is
  never called.
\<close>

theorem C10_no_readiness_without_metadata:
  assumes "expectedTotalChunks s = 0" and "list_all (\<lambda>i. \<not> is_metadata i) inputs"
  shows "checkPlaybackReadiness s = (s, [])
       \<and> (\<forall>r. js_div (receivingProgress s) (expectedTotalChunks s) \<noteq> Fin r)
       \<and> expectedTotalChunks (fst (run inputs s)) = 0
       \<and> playbackStarted (fst (run inputs s)) = playbackStarted s
       \<and> OnPlaybackReady \<notin> set (snd (run inputs s))
       \<and> checkPlaybackReadiness (fst (run inputs s)) = (fst (run inputs s), [])"
proof -
  have e: "expectedTotalChunks (fst (run inputs s)) = 0"
    using run_expected [OF assms(2), of s] assms(1) by simp
  have keep: "playbackStarted (fst (run inputs s')) = playbackStarted s'
       \<and> count_list (snd (run inputs s')) OnPlaybackReady = 0"
    if "expectedTotalChunks s' = 0" for s'
    using assms(2) that
  proof (induction inputs arbitrary: s')
    case Nil
    then show ?case by simp
  next
    case (Cons i "is")
    from Cons.prems have n: "\<not> is_metadata i" and r: "list_all (\<lambda>i. \<not> is_metadata i) is"
      by simp_all
    have e1: "expectedTotalChunks (fst (step i s')) = 0"
      using step_expected [OF n, of s'] Cons.prems(2) by simp
    have s1: "playbackStarted (fst (step i s')) = playbackStarted s'"
    proof (cases i rule: step_cases)
      case (chunk now m)
      show ?thesis
      proof (cases "decoded m")
        case None
        then show ?thesis using chunk by (simp only: step_chunk handleChunk_dropped)
      next
        case (Some p)
        then obtain j b where v: "decoded m = Some (j, b)" by (cases p) simp
        show ?thesis using chunk Cons.prems(2)
          by (simp only: step_chunk) (simp add: handleChunk_started [OF v])
      qed
    next
      case other
      show ?thesis by (rule step_other(3) [OF n other])
    qed
    have c1: "count_list (snd (step i s')) OnPlaybackReady = 0"
      using step_count [OF n, of s'] s1 by simp
    show ?case
      using Cons.IH [OF r e1] s1 c1 by (simp add: run_Cons del: run.simps)
  qed
  have "checkPlaybackReadiness s = (s, [])"
    using assms(1) by (rule checkPlaybackReadiness_no_metadata)
  moreover have "\<forall>r. js_div (receivingProgress s) (expectedTotalChunks s) \<noteq> Fin r"
    using assms(1) by (simp add: js_div_def)
  moreover have "checkPlaybackReadiness (fst (run inputs s)) = (fst (run inputs s), [])"
    using e by (rule checkPlaybackReadiness_no_metadata)
  moreover have "OnPlaybackReady \<notin> set (snd (run inputs s))"
    using keep [OF assms(1)] by (simp add: count_list_0_iff)
  ultimately show ?thesis using e keep [OF assms(1)] by blast
qed

theorem C10_no_readiness_without_metadata_witness:
  "expectedTotalChunks (new_service idle_video) = 0
   \<and> list_all (\<lambda>i. \<not> is_metadata i)
        (map (\<lambda>i. Message 0 (Some (chunk_envelope i 64 ''AAAA''))) [0, 1, 2])
   \<and> checkPlaybackReadiness (new_service idle_video) = (new_service idle_video, [])
   \<and> receivingProgress (fst (run (map (\<lambda>i. Message 0 (Some (chunk_envelope i 64 ''AAAA''))) [0, 1, 2])
        (new_service idle_video))) = 3
   \<and> playbackStarted (fst (run (map (\<lambda>i. Message 0 (Some (chunk_envelope i 64 ''AAAA''))) [0, 1, 2])
        (new_service idle_video))) = False
   \<and> OnPlaybackReady \<notin> set (snd (run (map (\<lambda>i. Message 0 (Some (chunk_envelope i 64 ''AAAA''))) [0, 1, 2])
        (new_service idle_video)))"
proof -
  let ?f = "\<lambda>i. Message 0 (Some (chunk_envelope i 64 ''AAAA''))"
  have e: "expectedTotalChunks (new_service idle_video) = 0"
    and p: "playbackStarted (new_service idle_video) = False"
    and r0: "receivingProgress (new_service idle_video) = 0"
    by (simp_all add: new_service_def)
  have l: "list_all (\<lambda>i. \<not> is_metadata i) (map ?f [0, 1, 2])"
    by (simp add: chunk_envelope_def)
  have r3: "receivingProgress (fst (run (map ?f [0, 1, 2]) (new_service idle_video))) = 3"
    using r0 by (simp add: run_Cons step_chunk_AAAA del: run.simps(2) step.simps)
  show ?thesis
    using C10_no_readiness_without_metadata [OF e l] e l p r3 by simp
qed

section \<open>The decode feeder\<close>

lemma collect_spec:
  "collect m acc idx = (acc', idx') \<Longrightarrow> length acc \<le> 5 \<Longrightarrow>
     (\<exists>cs. acc' = acc @ cs \<and> idx' = idx + length cs \<and> length acc' \<le> 5
           \<and> map m [idx..<idx'] = map Some cs
           \<and> (length acc' < 5 \<longrightarrow> m idx' = None))"
proof (induction m acc idx arbitrary: acc' idx' rule: collect.induct)
  case (1 m acc idx)
  show ?case
  proof (cases "length acc < 5")
    case False
    with "1.prems" show ?thesis by (subst (asm) collect.simps) simp
  next
    case True
    show ?thesis
    proof (cases "m idx")
      case None
      with True "1.prems" show ?thesis by (subst (asm) collect.simps) simp
    next
      case (Some chunk)
      with True "1.prems" have r: "collect m (acc @ [chunk]) (idx + 1) = (acc', idx')"
        by (subst (asm) collect.simps) simp
      from True have l: "length (acc @ [chunk]) \<le> 5" by simp
      from "1.IH" [OF True Some r l]
      obtain cs where cs: "acc' = (acc @ [chunk]) @ cs" "idx' = idx + 1 + length cs"
        "length acc' \<le> 5" "map m [idx + 1..<idx'] = map Some cs"
        "length acc' < 5 \<longrightarrow> m idx' = None"
        by blast
      have "idx < idx'" using cs(2) by simp
      then have "[idx..<idx'] = idx # [Suc idx..<idx']" by (rule upt_conv_Cons)
      then have "map m [idx..<idx'] = map Some (chunk # cs)"
        using Some cs(4) by simp
      with cs show ?thesis by (intro exI [of _ "chunk # cs"]) simp
    qed
  qed
qed

lemma collect_present:
  "length acc < 5 \<Longrightarrow> m i = Some c \<Longrightarrow> collect m acc i = collect m (acc @ [c]) (Suc i)"
  by (subst collect.simps) simp

lemma collect_gap: "m i = None \<Longrightarrow> collect m acc i = (acc, i)"
  by (subst collect.simps) simp

lemma collect_from_cursor:
  obtains cs where "collect m [] c = (cs, c + length cs)" and "length cs \<le> 5"
    and "map m [c..<c + length cs] = map Some cs"
    and "length cs < 5 \<longrightarrow> m (c + length cs) = None"
proof -
  obtain acc' idx' where r: "collect m [] c = (acc', idx')" by (cases "collect m [] c")
  from collect_spec [OF r] show ?thesis using that r by auto
qed

lemma bufferChunks_result:
  obtains cs where "length cs \<le> 5"
    and "map (receivedChunks s) [bufferedChunkIndex s..<bufferedChunkIndex s + length cs] = map Some cs"
    and "length cs < 5 \<longrightarrow> receivedChunks s (bufferedChunkIndex s + length cs) = None"
    and "bufferChunks s =
      (case sourceBuffer s of
         None \<Rightarrow> (s, [])
       | Some sb \<Rightarrow>
           if isBuffering s \<or> cs = [] then (s, [])
           else if appendThrows sb then
             (s\<lparr>isBuffering := False\<rparr>, [Console Err ''Buffer append error'', OnError BufferingError])
           else (s\<lparr>isBuffering := True, bufferedChunkIndex := bufferedChunkIndex s + length cs\<rparr>,
                 [AppendBuffer (concat cs)]))"
proof -
  obtain cs where cs: "collect (receivedChunks s) [] (bufferedChunkIndex s) = (cs, bufferedChunkIndex s + length cs)"
    "length cs \<le> 5"
    "map (receivedChunks s) [bufferedChunkIndex s..<bufferedChunkIndex s + length cs] = map Some cs"
    "length cs < 5 \<longrightarrow> receivedChunks s (bufferedChunkIndex s + length cs) = None"
    by (rule collect_from_cursor)
  have "bufferChunks s =
      (case sourceBuffer s of
         None \<Rightarrow> (s, [])
       | Some sb \<Rightarrow>
           if isBuffering s \<or> cs = [] then (s, [])
           else if appendThrows sb then
             (s\<lparr>isBuffering := False\<rparr>, [Console Err ''Buffer append error'', OnError BufferingError])
           else (s\<lparr>isBuffering := True, bufferedChunkIndex := bufferedChunkIndex s + length cs\<rparr>,
                 [AppendBuffer (concat cs)]))"
    by (simp add: bufferChunks_def cs(1) Let_def split: option.splits)
  with cs(2-4) show ?thesis using that by blast
qed

lemma map_Some_nth:
  assumes "map m [c..<c + length cs] = map Some cs" and "c \<le> i" and "i < c + length cs"
  shows "m i = Some (cs ! (i - c))"
proof -
  have "map m [c..<c + length cs] ! (i - c) = map Some cs ! (i - c)"
    using assms(1) by simp
  moreover have "i - c < length cs" using assms(2,3) by simp
  ultimately show ?thesis using assms(2) by simp
qed

text \<open>
  Claim C3. One invocation of \<open>bufferChunks\<close> moves the cursor \<open>bufferedChunkIndex\<close> forward
  by at most 5, and only over indices that are present in \<open>receivedChunks\<close>: the cursor never
  passes a gap. What it hands to the sink is one block, the concatenation in index order of
  the chunks stored at the indices from the old cursor up to (excluding) the new one; without
  an append the cursor does not move. In particular, with exactly the chunks 0, 1 and 3
  present and the cursor at 0, the block is chunk 0 followed by chunk 1 and the cursor stops
  at 2; the re-scan at the sink's \<open>updateend\<close> feeds nothing, and only once chunk 2 is
  stored does the next scan feed chunks 2 and 3.
\<close>

theorem C3_feeder_contiguous:
  "bufferedChunkIndex s \<le> bufferedChunkIndex (fst (bufferChunks s))
   \<and> bufferedChunkIndex (fst (bufferChunks s)) \<le> bufferedChunkIndex s + 5
   \<and> (\<forall>i. bufferedChunkIndex s \<le> i \<and> i < bufferedChunkIndex (fst (bufferChunks s))
          \<longrightarrow> receivedChunks s i \<noteq> None)
   \<and> (\<exists>cs. map (receivedChunks s) [bufferedChunkIndex s..<bufferedChunkIndex (fst (bufferChunks s))]
              = map Some cs
          \<and> (if bufferedChunkIndex (fst (bufferChunks s)) = bufferedChunkIndex s
              then \<forall>blk. AppendBuffer blk \<notin> set (snd (bufferChunks s))
              else snd (bufferChunks s) = [AppendBuffer (concat cs)]))
   \<and> (\<forall>a b d sb. dom (receivedChunks s) = {0, 1, 3} \<and> receivedChunks s 0 = Some a
          \<and> receivedChunks s 1 = Some b \<and> receivedChunks s 3 = Some d
          \<and> bufferedChunkIndex s = 0 \<and> \<not> isBuffering s
          \<and> sourceBuffer s = Some sb \<and> \<not> appendThrows sb
        \<longrightarrow> bufferChunks s = (s\<lparr>isBuffering := True, bufferedChunkIndex := 2\<rparr>, [AppendBuffer (a @ b)])
          \<and> onUpdateEnd (s\<lparr>isBuffering := True, bufferedChunkIndex := 2\<rparr>)
              = (s\<lparr>isBuffering := False, bufferedChunkIndex := 2\<rparr>, [])
          \<and> (\<forall>c. bufferChunks (s\<lparr>isBuffering := False, bufferedChunkIndex := 2,
                                   receivedChunks := (receivedChunks s)(2 \<mapsto> c)\<rparr>)
                 = (s\<lparr>isBuffering := True, bufferedChunkIndex := 4,
                       receivedChunks := (receivedChunks s)(2 \<mapsto> c)\<rparr>, [AppendBuffer (c @ d)])))"
proof -
  let ?c = "bufferedChunkIndex s"
  let ?c' = "bufferedChunkIndex (fst (bufferChunks s))"
  obtain cs where cs: "length cs \<le> 5"
    "map (receivedChunks s) [?c..<?c + length cs] = map Some cs"
    and res: "bufferChunks s =
      (case sourceBuffer s of
         None \<Rightarrow> (s, [])
       | Some sb \<Rightarrow>
           if isBuffering s \<or> cs = [] then (s, [])
           else if appendThrows sb then
             (s\<lparr>isBuffering := False\<rparr>, [Console Err ''Buffer append error'', OnError BufferingError])
           else (s\<lparr>isBuffering := True, bufferedChunkIndex := ?c + length cs\<rparr>,
                 [AppendBuffer (concat cs)]))"
    by (rule bufferChunks_result)
  have fed_or_stay: "(?c' = ?c \<and> (\<forall>blk. AppendBuffer blk \<notin> set (snd (bufferChunks s))))
      \<or> (?c' = ?c + length cs \<and> cs \<noteq> [] \<and> snd (bufferChunks s) = [AppendBuffer (concat cs)])"
    by (simp add: res split: option.splits)
  then have g1: "?c \<le> ?c'" and g2: "?c' \<le> ?c + 5" using cs(1) by auto
  have g3: "\<forall>i. ?c \<le> i \<and> i < ?c' \<longrightarrow> receivedChunks s i \<noteq> None"
  proof (intro allI impI)
    fix i assume i: "?c \<le> i \<and> i < ?c'"
    with fed_or_stay have "?c' = ?c + length cs" by auto
    with i show "receivedChunks s i \<noteq> None"
      using map_Some_nth [OF cs(2), of i] by simp
  qed
  have g4: "\<exists>cs. map (receivedChunks s) [?c..<?c'] = map Some cs
          \<and> (if ?c' = ?c then \<forall>blk. AppendBuffer blk \<notin> set (snd (bufferChunks s))
              else snd (bufferChunks s) = [AppendBuffer (concat cs)])"
  proof (cases "?c' = ?c")
    case True
    with fed_or_stay have "\<forall>blk. AppendBuffer blk \<notin> set (snd (bufferChunks s))" by auto
    with True show ?thesis by simp
  next
    case False
    with fed_or_stay have "?c' = ?c + length cs" "snd (bufferChunks s) = [AppendBuffer (concat cs)]"
      by auto
    with False cs(2) show ?thesis by (intro exI [of _ cs]) simp
  qed
  have scenario: "\<forall>a b d sb. dom (receivedChunks s) = {0, 1, 3} \<and> receivedChunks s 0 = Some a
          \<and> receivedChunks s 1 = Some b \<and> receivedChunks s 3 = Some d
          \<and> bufferedChunkIndex s = 0 \<and> \<not> isBuffering s
          \<and> sourceBuffer s = Some sb \<and> \<not> appendThrows sb
        \<longrightarrow> bufferChunks s = (s\<lparr>isBuffering := True, bufferedChunkIndex := 2\<rparr>, [AppendBuffer (a @ b)])
          \<and> onUpdateEnd (s\<lparr>isBuffering := True, bufferedChunkIndex := 2\<rparr>)
              = (s\<lparr>isBuffering := False, bufferedChunkIndex := 2\<rparr>, [])
          \<and> (\<forall>c. bufferChunks (s\<lparr>isBuffering := False, bufferedChunkIndex := 2,
                                   receivedChunks := (receivedChunks s)(2 \<mapsto> c)\<rparr>)
                 = (s\<lparr>isBuffering := True, bufferedChunkIndex := 4,
                       receivedChunks := (receivedChunks s)(2 \<mapsto> c)\<rparr>, [AppendBuffer (c @ d)]))"
  proof (intro allI impI, elim conjE)
    fix a b d sb
    assume h: "dom (receivedChunks s) = {0, 1, 3}" "receivedChunks s 0 = Some a"
      "receivedChunks s 1 = Some b" "receivedChunks s 3 = Some d"
      "bufferedChunkIndex s = 0" "\<not> isBuffering s" "sourceBuffer s = Some sb" "\<not> appendThrows sb"
    have "(2::nat) \<notin> dom (receivedChunks s)" and "(4::nat) \<notin> dom (receivedChunks s)"
      unfolding h(1) by simp_all
    then have g2: "receivedChunks s 2 = None" and g4: "receivedChunks s 4 = None"
      by (simp_all add: domIff)
    have n2: "Suc (Suc 0) = 2" and n3: "Suc 2 = 3" and n4: "Suc 3 = 4" by simp_all
    have s1: "receivedChunks s (Suc 0) = Some b" using h(3) by simp
    have c0: "collect (receivedChunks s) [] 0 = ([a, b], 2)"
    proof -
      have "collect (receivedChunks s) [] 0 = collect (receivedChunks s) ([] @ [a]) (Suc 0)"
        by (rule collect_present) (simp_all add: h(2))
      also have "\<dots> = collect (receivedChunks s) (([] @ [a]) @ [b]) (Suc (Suc 0))"
        by (rule collect_present) (simp_all add: s1)
      also have "\<dots> = (([] @ [a]) @ [b], Suc (Suc 0))"
        by (rule collect_gap) (simp add: n2 g2)
      finally show ?thesis by (simp add: n2)
    qed
    have c2: "collect (receivedChunks s) [] 2 = ([], 2)"
      by (rule collect_gap) (rule g2)
    have c3: "collect ((receivedChunks s)(2 \<mapsto> c)) [] 2 = ([c, d], 4)" for c
    proof -
      let ?m = "(receivedChunks s)(2 \<mapsto> c)"
      have "collect ?m [] 2 = collect ?m ([] @ [c]) (Suc 2)"
        by (rule collect_present) simp_all
      also have "\<dots> = collect ?m (([] @ [c]) @ [d]) (Suc (Suc 2))"
        by (rule collect_present) (simp_all add: n3 h(4))
      also have "\<dots> = (([] @ [c]) @ [d], Suc (Suc 2))"
        by (rule collect_gap) (simp add: n3 n4 g4)
      finally show ?thesis by (simp add: n3 n4)
    qed
    have b1: "bufferChunks s = (s\<lparr>isBuffering := True, bufferedChunkIndex := 2\<rparr>, [AppendBuffer (a @ b)])"
      using h(5-8) by (simp add: bufferChunks_def c0)
    have b2: "onUpdateEnd (s\<lparr>isBuffering := True, bufferedChunkIndex := 2\<rparr>)
              = (s\<lparr>isBuffering := False, bufferedChunkIndex := 2\<rparr>, [])"
      using h(7) by (simp add: bufferChunks_def onUpdateEnd_def c2)
    have b3: "\<forall>c. bufferChunks (s\<lparr>isBuffering := False, bufferedChunkIndex := 2,
                                   receivedChunks := (receivedChunks s)(2 \<mapsto> c)\<rparr>)
                 = (s\<lparr>isBuffering := True, bufferedChunkIndex := 4,
                       receivedChunks := (receivedChunks s)(2 \<mapsto> c)\<rparr>, [AppendBuffer (c @ d)])"
      using h(7,8) by (simp add: bufferChunks_def c3)
    show "bufferChunks s = (s\<lparr>isBuffering := True, bufferedChunkIndex := 2\<rparr>, [AppendBuffer (a @ b)])
          \<and> onUpdateEnd (s\<lparr>isBuffering := True, bufferedChunkIndex := 2\<rparr>)
              = (s\<lparr>isBuffering := False, bufferedChunkIndex := 2\<rparr>, [])
          \<and> (\<forall>c. bufferChunks (s\<lparr>isBuffering := False, bufferedChunkIndex := 2,
                                   receivedChunks := (receivedChunks s)(2 \<mapsto> c)\<rparr>)
                 = (s\<lparr>isBuffering := True, bufferedChunkIndex := 4,
                       receivedChunks := (receivedChunks s)(2 \<mapsto> c)\<rparr>, [AppendBuffer (c @ d)]))"
      by (rule conjI [OF b1 conjI [OF b2 b3]])
  qed
  show ?thesis by (rule conjI [OF g1 conjI [OF g2 conjI [OF g3 conjI [OF g4 scenario]]]])
qed

theorem C3_feeder_contiguous_witness:
  "dom (receivedChunks gap_example) = {0, 1, 3}
   \<and> bufferedChunkIndex gap_example = 0
   \<and> bufferChunks gap_example
       = (gap_example\<lparr>isBuffering := True, bufferedChunkIndex := 2\<rparr>, [AppendBuffer [1, 2]])
   \<and> onUpdateEnd (gap_example\<lparr>isBuffering := True, bufferedChunkIndex := 2\<rparr>)
       = (gap_example\<lparr>isBuffering := False, bufferedChunkIndex := 2\<rparr>, [])
   \<and> bufferChunks (gap_example\<lparr>isBuffering := False, bufferedChunkIndex := 2,
                       receivedChunks := (receivedChunks gap_example)(2 \<mapsto> [3])\<rparr>)
       = (gap_example\<lparr>isBuffering := True, bufferedChunkIndex := 4,
                       receivedChunks := (receivedChunks gap_example)(2 \<mapsto> [3])\<rparr>,
          [AppendBuffer [3, 4]])"
proof -
  have d: "dom (receivedChunks gap_example) = {0, 1, 3}"
    by (auto simp: gap_example_def new_service_def)
  have h: "receivedChunks gap_example 0 = Some [1]" "receivedChunks gap_example 1 = Some [2]"
    "receivedChunks gap_example 3 = Some [4]" "bufferedChunkIndex gap_example = 0"
    "\<not> isBuffering gap_example" "sourceBuffer gap_example = Some \<lparr>appendThrows = False\<rparr>"
    "\<not> appendThrows \<lparr>appendThrows = False\<rparr>"
    by (simp_all add: gap_example_def new_service_def)
  from C3_feeder_contiguous [of gap_example]
  have "\<forall>a b d sb. dom (receivedChunks gap_example) = {0, 1, 3} \<and> receivedChunks gap_example 0 = Some a
          \<and> receivedChunks gap_example 1 = Some b \<and> receivedChunks gap_example 3 = Some d
          \<and> bufferedChunkIndex gap_example = 0 \<and> \<not> isBuffering gap_example
          \<and> sourceBuffer gap_example = Some sb \<and> \<not> appendThrows sb
        \<longrightarrow> bufferChunks gap_example = (gap_example\<lparr>isBuffering := True, bufferedChunkIndex := 2\<rparr>, [AppendBuffer (a @ b)])
          \<and> onUpdateEnd (gap_example\<lparr>isBuffering := True, bufferedChunkIndex := 2\<rparr>)
              = (gap_example\<lparr>isBuffering := False, bufferedChunkIndex := 2\<rparr>, [])
          \<and> (\<forall>c. bufferChunks (gap_example\<lparr>isBuffering := False, bufferedChunkIndex := 2,
                                   receivedChunks := (receivedChunks gap_example)(2 \<mapsto> c)\<rparr>)
                 = (gap_example\<lparr>isBuffering := True, bufferedChunkIndex := 4,
                       receivedChunks := (receivedChunks gap_example)(2 \<mapsto> c)\<rparr>, [AppendBuffer (c @ d)]))"
    by (elim conjE)
  from this [rule_format, of "[1]" "[2]" "[4]" "\<lparr>appendThrows = False\<rparr>"] d h
  have "bufferChunks gap_example = (gap_example\<lparr>isBuffering := True, bufferedChunkIndex := 2\<rparr>, [AppendBuffer ([1] @ [2])])
          \<and> onUpdateEnd (gap_example\<lparr>isBuffering := True, bufferedChunkIndex := 2\<rparr>)
              = (gap_example\<lparr>isBuffering := False, bufferedChunkIndex := 2\<rparr>, [])
          \<and> (\<forall>c. bufferChunks (gap_example\<lparr>isBuffering := False, bufferedChunkIndex := 2,
                                   receivedChunks := (receivedChunks gap_example)(2 \<mapsto> c)\<rparr>)
                 = (gap_example\<lparr>isBuffering := True, bufferedChunkIndex := 4,
                       receivedChunks := (receivedChunks gap_example)(2 \<mapsto> c)\<rparr>, [AppendBuffer (c @ [4])]))"
    by blast
  then show ?thesis using d h(4) by simp
qed

section \<open>Synchronisation\<close>

lemma binade_numeral:
  "binade (numeral k) p x =
     (if 2 * p \<le> x then binade (pred_numeral k) (2 * p) x
      else if x < p \<and> 1 / 2 ^ 1022 < p then binade (pred_numeral k) (p / 2) x
      else p)"
  by (simp add: numeral_eq_Suc)

lemmas round_double_eval = round_double_def round_half_even_def binade_numeral Let_def













text \<open>
  The rounding decides at the boundary. With the local time at the double 1.002, the sample
  at 0 and 2 ms of delay, the exact difference of local time and target is above 1, but the
  difference as the source computes it is the double 1.0: the drift is not greater than 1.0
  and the handler does not seek.
\<close>

lemma handleSync_rounded_drift:
  "(1::real) < 4512606826625237 / 4503599627370496 - 1152921504606847 / 576460752303423488
   \<and> round_double (1002 / 1000) = Fin (4512606826625237 / 4503599627370496)
   \<and> fl_add (Fin 0) (fl_div (fl_sub (Fin 2) (Fin 0)) 1000)
       = Fin (1152921504606847 / 576460752303423488)
   \<and> fl_abs (fl_sub (Fin (4512606826625237 / 4503599627370496))
        (Fin (1152921504606847 / 576460752303423488))) = Fin 1
   \<and> handleSync 2 (sync_envelope 0 False 0)
        (new_service \<lparr>video_currentTime = 4512606826625237 / 4503599627370496,
                      video_paused = False, video_playAllowed = True\<rparr>)
       = Inr (new_service \<lparr>video_currentTime = 4512606826625237 / 4503599627370496,
                           video_paused = False, video_playAllowed = True\<rparr>, [])"
proof -
  have r1: "round_double (1002 / 1000) = Fin (4512606826625237 / 4503599627370496)"
    by (simp add: round_double_eval)
  have r2: "round_double 2 = Fin 2" by (simp add: round_double_eval)
  have r3: "round_double (1 / 500) = Fin (1152921504606847 / 576460752303423488)"
    by (simp add: round_double_eval)
  have r4: "round_double (4512606826625237 / 4503599627370496
              - 1152921504606847 / 576460752303423488) = Fin 1"
    by (simp add: round_double_eval)
  have t: "fl_add (Fin 0) (fl_div (fl_sub (Fin 2) (Fin 0)) 1000)
       = Fin (1152921504606847 / 576460752303423488)"
    by (simp add: fl_sub_def r2 r3 round_double_eval)
  have m: "(4512606826625237 / 4503599627370496 :: real) + - (1152921504606847 / 576460752303423488)
      = 4512606826625237 / 4503599627370496 - 1152921504606847 / 576460752303423488"
    by simp
  have d: "fl_abs (fl_sub (Fin (4512606826625237 / 4503599627370496))
        (Fin (1152921504606847 / 576460752303423488))) = Fin 1"
    by (simp only: fl_sub_def fl_neg.simps fl_add.simps m r4 fl_abs.simps) simp
  have h: "handleSync 2 (sync_envelope 0 False 0)
        (new_service \<lparr>video_currentTime = 4512606826625237 / 4503599627370496,
                      video_paused = False, video_playAllowed = True\<rparr>)
       = Inr (new_service \<lparr>video_currentTime = 4512606826625237 / 4503599627370496,
                           video_paused = False, video_playAllowed = True\<rparr>, [])"
    by (simp add: handleSync_def sync_envelope_def new_service_def Let_def t d SEEK_TOLERANCE_def)
  have g: "(1::real) < 4512606826625237 / 4503599627370496 - 1152921504606847 / 576460752303423488"
    by simp
  show ?thesis by (rule conjI [OF g conjI [OF r1 conjI [OF t conjI [OF d h]]]])
qed

text \<open>
  Claim C6. On a master, \<open>handleSync\<close> returns at its first guard: the whole service state,
  the video element included, is as before and nothing is done to the playback surface;
  the same holds for a sync envelope that arrives through \<open>handleIncomingMessage\<close>.
\<close>

theorem C6_master_ignores_sync:
  assumes "isMaster s"
  shows "handleSync now m s = Inr (s, [])
       \<and> (mtype m = Sync \<longrightarrow> handleIncomingMessage now (Some m) s = (s, []))"
  using assms by (simp add: handleSync_def handleIncomingMessage_def)

theorem C6_master_ignores_sync_witness:
  "isMaster sender_example
   \<and> mtype (sync_envelope 100 False 1000) = Sync
   \<and> handleSync 1400 (sync_envelope 100 False 1000) sender_example = Inr (sender_example, [])
   \<and> handleIncomingMessage 1400 (Some (sync_envelope 100 False 1000)) sender_example
       = (sender_example, [])"
proof -
  have a: "isMaster sender_example" by (simp add: sender_example_def)
  have b: "mtype (sync_envelope 100 False 1000) = Sync" by (simp add: sync_envelope_def)
  show ?thesis
    using C6_master_ignores_sync [OF a, of 1400 "sync_envelope 100 False 1000"] a b by simp
qed

section \<open>The sender\<close>

lemma sent_simps [simp]:
  "sent [] = []"
  "sent (ChannelSend m # ev) = m # sent ev"
  "sent (OnProgressUpdate p d # ev) = sent ev"
  "sent (OnStatusUpdate st # ev) = sent ev"
  "sent (OnError t # ev) = sent ev"
  "sent (SetTimeout tm dl # ev) = sent ev"
  "sent (Console l txt # ev) = sent ev"
  "sent (ev1 @ ev2) = sent ev1 @ sent ev2"
  by (simp_all add: sent_def)

lemma errors_simps [simp]:
  "errors [] = []"
  "errors (OnError t # ev) = t # errors ev"
  "errors (ChannelSend m # ev) = errors ev"
  "errors (OnProgressUpdate p d # ev) = errors ev"
  "errors (OnStatusUpdate st # ev) = errors ev"
  "errors (SetTimeout tm dl # ev) = errors ev"
  "errors (Console l txt # ev) = errors ev"
  "errors (ev1 @ ev2) = errors ev1 @ errors ev2"
  by (simp_all add: errors_def)

lemma sendNextChunk_lost:
  assumes "isSending s" and "sendingProgress s < totalChunks s" and "\<not> channel_open s"
  shows "sendNextChunk s =
    (s\<lparr>isSending := False\<rparr>,
     [Console Err ''Data channel not ready for sending chunk'', OnError ConnectionLost])"
  using assms by (simp add: sendNextChunk_def)

lemma sendNextChunk_sends:
  assumes "isSending s" and "sendingProgress s < totalChunks s"
    and "sendingProgress s < length (fileChunks s)"
    and "dataChannel s = Some ch" and "readyState ch = Open" and "\<not> sendThrows ch"
  shows "fst (sendNextChunk s) = s\<lparr>sendingProgress := sendingProgress s + 1\<rparr>"
    and "sent (snd (sendNextChunk s)) =
           [chunk_envelope (sendingProgress s) (totalChunks s)
              (arrayBufferToBase64 (fileChunks s ! sendingProgress s))]"
    and "errors (snd (sendNextChunk s)) = []"
    and "reschedules (snd (sendNextChunk s))"
  using assms
  by (simp_all add: sendNextChunk_def channel_open_def sendMessage_def Let_def chunk_envelope_def
        reschedules_def)

lemma sendNextChunk_idle: "\<not> isSending s \<Longrightarrow> sendNextChunk s = (s, [])"
  by (simp add: sendNextChunk_def)

lemma sendLoop_Cons:
  "sendLoop (r # env) s =
     (if reschedules (snd (sendNextChunk (set_readyState r s)))
      then (fst (sendLoop env (fst (sendNextChunk (set_readyState r s)))),
            snd (sendNextChunk (set_readyState r s))
              @ snd (sendLoop env (fst (sendNextChunk (set_readyState r s)))))
      else sendNextChunk (set_readyState r s))"
  by (simp add: case_prod_beta)

lemma sendLoop_step_open:
  assumes "isSending s" and "dataChannel s = Some ch" and "\<not> sendThrows ch"
    and "totalChunks s \<le> length (fileChunks s)" and "sendingProgress s < totalChunks s"
  shows "sendLoop (Open # env) s =
      (fst (sendLoop env (s\<lparr>dataChannel := Some (ch\<lparr>readyState := Open\<rparr>),
                            sendingProgress := sendingProgress s + 1\<rparr>)),
       snd (sendNextChunk (set_readyState Open s))
       @ snd (sendLoop env (s\<lparr>dataChannel := Some (ch\<lparr>readyState := Open\<rparr>),
                              sendingProgress := sendingProgress s + 1\<rparr>)))"
    and "sent (snd (sendNextChunk (set_readyState Open s))) =
           [chunk_envelope (sendingProgress s) (totalChunks s)
              (arrayBufferToBase64 (fileChunks s ! sendingProgress s))]"
    and "errors (snd (sendNextChunk (set_readyState Open s))) = []"
proof -
  let ?s = "set_readyState Open s"
  let ?ch = "ch\<lparr>readyState := Open\<rparr>"
  have sdef: "?s = s\<lparr>dataChannel := Some ?ch\<rparr>"
    using assms(2) by (simp add: set_readyState_def)
  have h: "isSending ?s" "sendingProgress ?s < totalChunks ?s"
    "sendingProgress ?s < length (fileChunks ?s)" "dataChannel ?s = Some ?ch"
    "readyState ?ch = Open" "\<not> sendThrows ?ch"
    using assms by (simp_all add: sdef)
  note step = sendNextChunk_sends [OF h]
  have s1: "fst (sendNextChunk ?s)
      = s\<lparr>dataChannel := Some ?ch, sendingProgress := sendingProgress s + 1\<rparr>"
    using step(1) unfolding sdef by simp
  show "sendLoop (Open # env) s =
      (fst (sendLoop env (s\<lparr>dataChannel := Some ?ch, sendingProgress := sendingProgress s + 1\<rparr>)),
       snd (sendNextChunk ?s)
       @ snd (sendLoop env (s\<lparr>dataChannel := Some ?ch, sendingProgress := sendingProgress s + 1\<rparr>)))"
    using step(4) by (simp only: sendLoop_Cons s1 if_True)
  show "sent (snd (sendNextChunk ?s)) =
           [chunk_envelope (sendingProgress s) (totalChunks s)
              (arrayBufferToBase64 (fileChunks s ! sendingProgress s))]"
    using step(2) by (simp add: sdef)
  show "errors (snd (sendNextChunk ?s)) = []" by (rule step(3))
qed

lemma sendLoop_step_lost:
  assumes "isSending s" and "dataChannel s = Some ch"
    and "sendingProgress s < totalChunks s" and "r \<noteq> Open"
  shows "sendLoop (r # env) s =
    (s\<lparr>dataChannel := Some (ch\<lparr>readyState := r\<rparr>), isSending := False\<rparr>,
     [Console Err ''Data channel not ready for sending chunk'', OnError ConnectionLost])"
proof -
  let ?s = "set_readyState r s"
  have sdef: "?s = s\<lparr>dataChannel := Some (ch\<lparr>readyState := r\<rparr>)\<rparr>"
    using assms(2) by (simp add: set_readyState_def)
  have "\<not> channel_open ?s" "isSending ?s" "sendingProgress ?s < totalChunks ?s"
    using assms by (simp_all add: sdef channel_open_def)
  then have l: "sendNextChunk ?s =
    (?s\<lparr>isSending := False\<rparr>,
     [Console Err ''Data channel not ready for sending chunk'', OnError ConnectionLost])"
    by (simp add: sendNextChunk_lost)
  have "sendLoop (r # env) s = sendNextChunk ?s"
    by (simp add: sendLoop_Cons l reschedules_def del: sendLoop.simps)
  then show ?thesis by (simp add: l) (simp add: sdef)
qed

lemma sendLoop_lost:
  assumes "isSending s" and "dataChannel s = Some ch" and "\<not> sendThrows ch"
    and "totalChunks s \<le> length (fileChunks s)"
    and "sendingProgress s + j < totalChunks s" and "r \<noteq> Open"
  shows "sent (snd (sendLoop (replicate j Open @ r # rest) s)) =
           map (\<lambda>i. chunk_envelope i (totalChunks s) (arrayBufferToBase64 (fileChunks s ! i)))
             [sendingProgress s..<sendingProgress s + j]
       \<and> errors (snd (sendLoop (replicate j Open @ r # rest) s)) = [ConnectionLost]
       \<and> \<not> isSending (fst (sendLoop (replicate j Open @ r # rest) s))
       \<and> sendingProgress (fst (sendLoop (replicate j Open @ r # rest) s)) = sendingProgress s + j"
  using assms
proof (induction j arbitrary: s ch)
  case 0
  show ?case
    using sendLoop_step_lost [OF "0.prems"(1,2) _ "0.prems"(6)] "0.prems"(5) by simp
next
  case (Suc j)
  let ?ch = "ch\<lparr>readyState := Open\<rparr>"
  let ?s1 = "s\<lparr>dataChannel := Some ?ch, sendingProgress := sendingProgress s + 1\<rparr>"
  have lt: "sendingProgress s < totalChunks s" using Suc.prems(5) by simp
  note st = sendLoop_step_open [OF Suc.prems(1-4) lt]
  have p: "isSending ?s1" "dataChannel ?s1 = Some ?ch" "\<not> sendThrows ?ch"
    "totalChunks ?s1 \<le> length (fileChunks ?s1)" "sendingProgress ?s1 + j < totalChunks ?s1"
    using Suc.prems by simp_all
  note ih = Suc.IH [OF p Suc.prems(6)]
  note ih1 = ih [THEN conjunct1] and ih2 = ih [THEN conjunct2, THEN conjunct1]
    and ih3 = ih [THEN conjunct2, THEN conjunct2, THEN conjunct1]
    and ih4 = ih [THEN conjunct2, THEN conjunct2, THEN conjunct2]
  have u: "[sendingProgress s..<sendingProgress s + Suc j]
      = sendingProgress s # [sendingProgress ?s1..<sendingProgress ?s1 + j]"
    by (simp add: upt_conv_Cons)
  have unfold: "sendLoop (replicate (Suc j) Open @ r # rest) s =
      (fst (sendLoop (replicate j Open @ r # rest) ?s1),
       snd (sendNextChunk (set_readyState Open s)) @ snd (sendLoop (replicate j Open @ r # rest) ?s1))"
    using st(1) [of "replicate j Open @ r # rest"] by simp
  have c1: "sent (snd (sendLoop (replicate (Suc j) Open @ r # rest) s)) =
           map (\<lambda>i. chunk_envelope i (totalChunks s) (arrayBufferToBase64 (fileChunks s ! i)))
             [sendingProgress s..<sendingProgress s + Suc j]"
  proof -
    have "sent (snd (sendLoop (replicate (Suc j) Open @ r # rest) s)) =
        chunk_envelope (sendingProgress s) (totalChunks s)
              (arrayBufferToBase64 (fileChunks s ! sendingProgress s))
        # map (\<lambda>i. chunk_envelope i (totalChunks ?s1) (arrayBufferToBase64 (fileChunks ?s1 ! i)))
             [sendingProgress ?s1..<sendingProgress ?s1 + j]"
      unfolding unfold by (simp only: snd_conv sent_simps(8) st(2) ih1 append_Cons append_Nil)
    then show ?thesis unfolding u by (simp only: list.map simp_thms) simp
  qed
  have c2: "errors (snd (sendLoop (replicate (Suc j) Open @ r # rest) s)) = [ConnectionLost]"
    unfolding unfold by (simp only: snd_conv errors_simps(8) st(3) ih2 append_Nil)
  have c3: "\<not> isSending (fst (sendLoop (replicate (Suc j) Open @ r # rest) s))"
    unfolding unfold fst_conv by (rule ih3)
  have c4: "sendingProgress (fst (sendLoop (replicate (Suc j) Open @ r # rest) s))
      = sendingProgress s + Suc j"
    unfolding unfold fst_conv using ih4 by simp
  show ?case by (rule conjI [OF c1 conjI [OF c2 conjI [OF c3 c4]]])
qed

lemma sendLoop_rest:
  assumes "isSending s" and "dataChannel s = Some ch" and "\<not> sendThrows ch"
    and "totalChunks s \<le> length (fileChunks s)"
    and "sendingProgress s + j < totalChunks s" and "r \<noteq> Open"
  shows "sendLoop (replicate j Open @ r # rest) s = sendLoop (replicate j Open @ [r]) s"
  using assms
proof (induction j arbitrary: s ch)
  case 0
  show ?case
    using sendLoop_step_lost [OF "0.prems"(1,2) _ "0.prems"(6)] "0.prems"(5) by simp
next
  case (Suc j)
  let ?ch = "ch\<lparr>readyState := Open\<rparr>"
  let ?s1 = "s\<lparr>dataChannel := Some ?ch, sendingProgress := sendingProgress s + 1\<rparr>"
  have lt: "sendingProgress s < totalChunks s" using Suc.prems(5) by simp
  note st = sendLoop_step_open(1) [OF Suc.prems(1-4) lt]
  have p: "isSending ?s1" "dataChannel ?s1 = Some ?ch" "\<not> sendThrows ?ch"
    "totalChunks ?s1 \<le> length (fileChunks ?s1)" "sendingProgress ?s1 + j < totalChunks ?s1"
    using Suc.prems by simp_all
  note ih = Suc.IH [OF p Suc.prems(6)]
  show ?case
    using st [of "replicate j Open @ r # rest"] st [of "replicate j Open @ [r]"] ih
    by (simp del: sendLoop.simps)
qed

text \<open>
  Claim C7. The sender is in the middle of a transfer and its timer finds the channel open
  for the chunks before \<open>k\<close> and not open when it comes to chunk \<open>k\<close>. Then exactly the
  chunks before \<open>k\<close> are handed to the channel, in order; one error, the loss of the
  connection, is reported through \<open>onError\<close>; \<open>isSending\<close> is cleared with
  \<open>sendingProgress\<close> at \<open>k\<close>; and no timer is set again, so whatever the channel does
  afterwards has no effect, and a later call of \<open>sendNextChunk\<close> does nothing. The single
  step holds for any state of a running transfer whose channel is missing or not open. (The
  channel's \<open>onclose\<close> handler, which runs \<open>cleanup\<close> and so ends the transfer by itself, is
  not part of the timer's loop.)
\<close>

theorem C7_channel_lost:
  assumes "isSending s" and "dataChannel s = Some ch" and "\<not> sendThrows ch"
    and "totalChunks s \<le> length (fileChunks s)"
    and "sendingProgress s \<le> k" and "k < totalChunks s" and "r \<noteq> Open"
  shows "sent (snd (sendLoop (replicate (k - sendingProgress s) Open @ r # rest) s)) =
           map (\<lambda>i. chunk_envelope i (totalChunks s) (arrayBufferToBase64 (fileChunks s ! i)))
             [sendingProgress s..<k]
       \<and> errors (snd (sendLoop (replicate (k - sendingProgress s) Open @ r # rest) s))
           = [ConnectionLost]
       \<and> \<not> isSending (fst (sendLoop (replicate (k - sendingProgress s) Open @ r # rest) s))
       \<and> sendingProgress (fst (sendLoop (replicate (k - sendingProgress s) Open @ r # rest) s)) = k
       \<and> sendLoop (replicate (k - sendingProgress s) Open @ r # rest) s
           = sendLoop (replicate (k - sendingProgress s) Open @ [r]) s
       \<and> sendNextChunk (fst (sendLoop (replicate (k - sendingProgress s) Open @ r # rest) s))
           = (fst (sendLoop (replicate (k - sendingProgress s) Open @ r # rest) s), [])
       \<and> (\<forall>s'. isSending s' \<and> sendingProgress s' < totalChunks s' \<and> \<not> channel_open s' \<longrightarrow>
             sendNextChunk s' =
               (s'\<lparr>isSending := False\<rparr>,
                [Console Err ''Data channel not ready for sending chunk'', OnError ConnectionLost]))"
proof -
  let ?j = "k - sendingProgress s"
  have k: "sendingProgress s + ?j = k" using assms(5) by simp
  then have lt: "sendingProgress s + ?j < totalChunks s" using assms(6) by simp
  note l = sendLoop_lost [OF assms(1-4) lt assms(7), of rest]
  have c1: "sent (snd (sendLoop (replicate ?j Open @ r # rest) s)) =
           map (\<lambda>i. chunk_envelope i (totalChunks s) (arrayBufferToBase64 (fileChunks s ! i)))
             [sendingProgress s..<k]"
    using l [THEN conjunct1] unfolding k .
  have c2: "errors (snd (sendLoop (replicate ?j Open @ r # rest) s)) = [ConnectionLost]"
    using l by blast
  have c3: "\<not> isSending (fst (sendLoop (replicate ?j Open @ r # rest) s))"
    using l by blast
  have c4: "sendingProgress (fst (sendLoop (replicate ?j Open @ r # rest) s)) = k"
    using l [THEN conjunct2, THEN conjunct2, THEN conjunct2] unfolding k .
  have c5: "sendLoop (replicate ?j Open @ r # rest) s = sendLoop (replicate ?j Open @ [r]) s"
    by (rule sendLoop_rest [OF assms(1-4) lt assms(7)])
  have c6: "sendNextChunk (fst (sendLoop (replicate ?j Open @ r # rest) s))
           = (fst (sendLoop (replicate ?j Open @ r # rest) s), [])"
    using c3 by (rule sendNextChunk_idle)
  have c7: "\<forall>s'. isSending s' \<and> sendingProgress s' < totalChunks s' \<and> \<not> channel_open s' \<longrightarrow>
             sendNextChunk s' =
               (s'\<lparr>isSending := False\<rparr>,
                [Console Err ''Data channel not ready for sending chunk'', OnError ConnectionLost])"
    by (simp add: sendNextChunk_lost)
  show ?thesis
    by (rule conjI [OF c1 conjI [OF c2 conjI [OF c3 conjI [OF c4 conjI [OF c5 conjI [OF c6 c7]]]]]])
qed

lemma encode_byte_1: "arrayBufferToBase64 [1] = ''AQ==''"
  by (simp add: arrayBufferToBase64_def btoa_def b64_char_def b64_alphabet_def numeral_2_eq_2)

theorem C7_channel_lost_witness:
  "isSending sender_example
   \<and> dataChannel sender_example = Some \<lparr>readyState = Open, sendThrows = False\<rparr>
   \<and> totalChunks sender_example = 3 \<and> length (fileChunks sender_example) = 3
   \<and> sendingProgress sender_example = 0
   \<and> sent (snd (sendLoop [Open, Closing, Open, Open] sender_example)) = [chunk_envelope 0 3 ''AQ=='']
   \<and> errors (snd (sendLoop [Open, Closing, Open, Open] sender_example)) = [ConnectionLost]
   \<and> isSending (fst (sendLoop [Open, Closing, Open, Open] sender_example)) = False
   \<and> sendingProgress (fst (sendLoop [Open, Closing, Open, Open] sender_example)) = 1"
proof -
  have a: "isSending sender_example"
    and b: "dataChannel sender_example = Some \<lparr>readyState = Open, sendThrows = False\<rparr>"
    and c: "\<not> sendThrows \<lparr>readyState = Open, sendThrows = False\<rparr>"
    and d: "totalChunks sender_example \<le> length (fileChunks sender_example)"
    and e: "sendingProgress sender_example \<le> 1"
    and f: "1 < totalChunks sender_example"
    and g: "Closing \<noteq> Open"
    by (simp_all add: sender_example_def new_service_def)
  have v: "totalChunks sender_example = 3" "length (fileChunks sender_example) = 3"
    "sendingProgress sender_example = 0" "fileChunks sender_example ! 0 = [1]"
    by (simp_all add: sender_example_def new_service_def)
  have r: "replicate (1 - sendingProgress sender_example) Open @ Closing # [Open, Open]
      = [Open, Closing, Open, Open]"
    by (simp add: v)
  note t = C7_channel_lost [OF a b c d e f g, of "[Open, Open]", unfolded r]
  have u: "[sendingProgress sender_example..<1] = [0]" by (simp add: v)
  have t1: "sent (snd (sendLoop [Open, Closing, Open, Open] sender_example)) = [chunk_envelope 0 3 ''AQ=='']"
    using t [THEN conjunct1] unfolding u by (simp add: v encode_byte_1 del: sendLoop.simps)
  have t2: "errors (snd (sendLoop [Open, Closing, Open, Open] sender_example)) = [ConnectionLost]"
    by (rule t [THEN conjunct2, THEN conjunct1])
  have t3: "isSending (fst (sendLoop [Open, Closing, Open, Open] sender_example)) = False"
    using t [THEN conjunct2, THEN conjunct2, THEN conjunct1] by (simp del: sendLoop.simps)
  have t4: "sendingProgress (fst (sendLoop [Open, Closing, Open, Open] sender_example)) = 1"
    by (rule t [THEN conjunct2, THEN conjunct2, THEN conjunct2, THEN conjunct1])
  show ?thesis
    using a b v(1-3) t1 t2 t3 t4 by (simp del: sendLoop.simps)
qed

text \<open>
  Claim C8, as the code has it. While a transfer is in progress (\<open>isSending\<close> holds) a
  further call of \<open>shareMovie\<close> returns at one of its guards, before any state is written and
  before the first \<open>await\<close>: the whole service state, and with it \<open>currentFile\<close>,
  \<open>fileChunks\<close>, \<open>sendingProgress\<close>, \<open>totalChunks\<close> and \<open>isSending\<close>, is as before, nothing
  is sent and no timer is set. With the channel open the call is refused by the busy guard,
  which raises no error: it throws nothing and does not call \<open>onError\<close>, its only effect is
  the console warning that a movie is already being sent. With the channel missing or not
  open the call is refused earlier, by the channel guards, which report the channel's state
  through \<open>onError\<close>.
\<close>

theorem C8_transfer_busy:
  assumes "isSending s"
  shows "fst (shareMovie file s) = s
       \<and> sent (snd (shareMovie file s)) = []
       \<and> \<not> reschedules (snd (shareMovie file s))
       \<and> snd (shareMovie file s) =
           (case dataChannel s of
              None \<Rightarrow> [Console Err ''Data channel not initialized'', OnError ChannelNotInitialized]
            | Some ch \<Rightarrow>
                if readyState ch \<noteq> Open
                then [Console Err ''Data channel not ready'', OnError (ChannelNotReady (readyState ch))]
                else [Console Warn ''Already sending a movie''])
       \<and> (channel_open s \<longrightarrow> errors (snd (shareMovie file s)) = [])"
  using assms
  by (simp add: shareMovie_def reschedules_def channel_open_def split: option.splits)

theorem C8_transfer_busy_witness:
  "isSending sender_example \<and> channel_open sender_example
   \<and> shareMovie \<lparr>file_name = ''b.mp4'', file_type = ''video/mp4'', file_bytes = [9]\<rparr> sender_example
       = (sender_example, [Console Warn ''Already sending a movie''])
   \<and> errors (snd (shareMovie \<lparr>file_name = ''b.mp4'', file_type = ''video/mp4'', file_bytes = [9]\<rparr>
        sender_example)) = []"
proof -
  have a: "isSending sender_example"
    and b: "dataChannel sender_example = Some \<lparr>readyState = Open, sendThrows = False\<rparr>"
    and c: "channel_open sender_example"
    by (simp_all add: sender_example_def new_service_def channel_open_def)
  show ?thesis
    using C8_transfer_busy [OF a, of "\<lparr>file_name = ''b.mp4'', file_type = ''video/mp4'', file_bytes = [9]\<rparr>"] a c
    by (simp add: b prod_eq_iff)
qed

text \<open>
  The claim as stated fails: on a master that is sending over an open channel, the second
  call reports no error at all; what it leaves behind is a console warning.
\<close>

theorem C8_counterexample:
  "isSending sender_example
   \<and> errors (snd (shareMovie \<lparr>file_name = ''b.mp4'', file_type = ''video/mp4'', file_bytes = [9]\<rparr>
        sender_example)) = []
   \<and> snd (shareMovie \<lparr>file_name = ''b.mp4'', file_type = ''video/mp4'', file_bytes = [9]\<rparr>
        sender_example) = [Console Warn ''Already sending a movie'']"
  by (simp add: shareMovie_def sender_example_def new_service_def)

end
